theory Spec2Isabelle
  imports Complex_Main
begin

section \<open>Data model\<close>

text \<open>
  The program is \<^verbatim>\<open>src/algorithm.py\<close>: the admissibility checker \<^verbatim>\<open>is_valid\<close>, the path
  expander \<^verbatim>\<open>_expand_path\<close>, the baseline builder \<^verbatim>\<open>_baseline_admissible_path\<close> and
  the route assembler \<^verbatim>\<open>run\<close>.

  Node identifiers are Python integers. A quantity is a Python number: the planner may
  supply an \<^verbatim>\<open>int\<close> or a \<^verbatim>\<open>float\<close>, the baseline builder writes \<^verbatim>\<open>0.0\<close> and
  \<^verbatim>\<open>float(...)\<close>, the assembler appends the integer \<^verbatim>\<open>0\<close>. Both kinds are kept apart by
  a constructor; a float is modelled by the real number it denotes (infinities and NaN
  are outside the model; the only operation on floats that rounds, the conversion of an
  integer by \<^verbatim>\<open>float\<close>, is modelled below). Python's \<^verbatim>\<open>==\<close> on numbers compares the values, and on
  tuples compares componentwise.
\<close>

type_synonym node = int

datatype quantity = PyInt int | PyFloat real

fun qval :: "quantity \<Rightarrow> real" where
  "qval (PyInt k) = of_int k"
| "qval (PyFloat r) = r"

type_synonym waypoint = "node \<times> quantity"

definition py_eq :: "waypoint \<Rightarrow> waypoint \<Rightarrow> bool" where
  "py_eq w1 w2 = (fst w1 = fst w2 \<and> qval (snd w1) = qval (snd w2))"

text \<open>
  The graph is a networkx graph. The model keeps what the program reads of it: the node
  set (\<^verbatim>\<open>number_of_nodes\<close>, membership), the adjacency (\<^verbatim>\<open>has_edge(u, v)\<close> looks \<^verbatim>\<open>v\<close> up
  in the adjacency of \<^verbatim>\<open>u\<close>; an undirected graph stores each edge in both directions) and
  the optional node attribute \<^verbatim>\<open>gold\<close>. The edge attribute \<^verbatim>\<open>dist\<close> is read only by
  \<^verbatim>\<open>nx.shortest_path\<close>, which is a parameter of the model (see below).
\<close>

record graph =
  nodes :: "node list"
  adj :: "(node \<times> node) list"
  gold :: "node \<Rightarrow> quantity option"

definition has_edge :: "graph \<Rightarrow> node \<Rightarrow> node \<Rightarrow> bool" where
  "has_edge G u v = ((u, v) \<in> set (adj G))"

definition number_of_nodes :: "graph \<Rightarrow> nat" where
  "number_of_nodes G = length (remdups (nodes G))"

text \<open>The exceptions the program can raise and does not catch.\<close>

datatype error = IndexError | KeyError | OverflowError

text \<open>
  Python's \<^verbatim>\<open>float(x)\<close>. A float is returned as it is. An integer is converted to the
  nearest double, ties to the even significand: integers of absolute value up to \<open>2^53\<close>
  are exact, a larger one keeps its 53 leading bits, rounded, and one that rounds to
  \<open>2^1024\<close> (from \<open>2^1024 - 2^970\<close> on) raises \<^verbatim>\<open>OverflowError\<close>.
\<close>

fun bit_length :: "nat \<Rightarrow> nat" where
  "bit_length n = (if n = 0 then 0 else Suc (bit_length (n div 2)))"

declare bit_length.simps [simp del]

definition round_half_even :: "nat \<Rightarrow> nat" where
  "round_half_even n =
     (let shift = bit_length n - 53;
          q = n div 2 ^ shift;
          r = n mod 2 ^ shift;
          half = 2 ^ (shift - 1)
      in (if half < r \<or> (r = half \<and> odd q) then q + 1 else q) * 2 ^ shift)"

definition py_float_int :: "int \<Rightarrow> error + real" where
  "py_float_int k =
     (if \<bar>k\<bar> \<le> 2 ^ 53 then Inr (of_int k)
      else if 2 ^ 1024 - 2 ^ 970 \<le> \<bar>k\<bar> then Inl OverflowError
      else Inr (of_int (sgn k * int (round_half_even (nat \<bar>k\<bar>)))))"

fun py_float :: "quantity \<Rightarrow> error + real" where
  "py_float (PyInt k) = py_float_int k"
| "py_float (PyFloat r) = Inr r"

section \<open>The library call \<^verbatim>\<open>nx.shortest_path\<close>\<close>

text \<open>
  \<^verbatim>\<open>nx.shortest_path(G, a, b, weight="dist")\<close> is library code. It is a parameter
  \<open>sp\<close> of every function that calls it: \<open>sp G a b = None\<close> stands for the two exceptions
  the program catches (\<^verbatim>\<open>NetworkXNoPath\<close>, \<^verbatim>\<open>NodeNotFound\<close>), \<open>Some p\<close> for the node list
  returned. The contract below is what the theorems assume of it where they need it: a
  returned list is a route of the graph from \<open>a\<close> to \<open>b\<close>, and the exception is raised only
  when there is no route (which includes that \<open>a\<close> or \<open>b\<close> is not a node). That the route
  is a shortest one plays no part in any property proved here.
\<close>

type_synonym shortest_path = "graph \<Rightarrow> node \<Rightarrow> node \<Rightarrow> node list option"

definition is_route :: "graph \<Rightarrow> node \<Rightarrow> node \<Rightarrow> node list \<Rightarrow> bool" where
  "is_route G a b p =
     (p \<noteq> [] \<and> hd p = a \<and> last p = b \<and> set p \<subseteq> set (nodes G) \<and> successively (has_edge G) p)"

definition no_route :: "graph \<Rightarrow> node \<Rightarrow> node \<Rightarrow> bool" where
  "no_route G a b = (a \<notin> set (nodes G) \<or> b \<notin> set (nodes G) \<or> (\<forall>p. \<not> is_route G a b p))"

definition sp_contract :: "shortest_path \<Rightarrow> graph \<Rightarrow> bool" where
  "sp_contract sp G =
     (\<forall>a b. case sp G a b of Some p \<Rightarrow> is_route G a b p | None \<Rightarrow> no_route G a b)"

text \<open>A shortest-path function given by a table, for concrete graphs.\<close>

definition sp_table :: "((node \<times> node) \<times> node list) list \<Rightarrow> shortest_path" where
  "sp_table tab G a b = map_of tab (a, b)"

section \<open>Admissibility checker\<close>

text \<open>
  \<^verbatim>\<open>for (n1, _), (n2, _) in zip(path, path[1:]): if not G.has_edge(n1, n2): return False\<close>
\<close>

fun edges_ok :: "graph \<Rightarrow> (waypoint \<times> waypoint) list \<Rightarrow> bool" where
  "edges_ok G [] = True"
| "edges_ok G (((n1, _), (n2, _)) # rest) =
     (if \<not> has_edge G n1 n2 then False else edges_ok G rest)"

definition is_valid :: "graph \<Rightarrow> waypoint list \<Rightarrow> bool" where
  "is_valid G path =
     (if path = [] then False
      else if fst (path ! 0) \<noteq> 0 \<and> \<not> has_edge G 0 (fst (path ! 0)) then False
      else edges_ok G (zip path (drop 1 path)))"

section \<open>Path expander\<close>

text \<open>
  The inner loop of \<^verbatim>\<open>_expand_path\<close>:
  \<^verbatim>\<open>for j in range(1, len(full)): out.append((full[j], gold_b if j == len(full) - 1 else 0.0))\<close>
\<close>

definition emit_tail :: "node list \<Rightarrow> quantity \<Rightarrow> waypoint list" where
  "emit_tail full gold_b =
     map (\<lambda>j. (full ! j, if j = length full - 1 then gold_b else PyFloat 0)) [1..<length full]"

text \<open>
  The outer loop over \<^verbatim>\<open>range(len(stops) - 1)\<close>, with the list \<open>out\<close> built so far. Reading
  \<^verbatim>\<open>pickups[i + 1]\<close> past the end raises before the library is called; no route returns
  the empty list at once; \<^verbatim>\<open>full[0]\<close> of an empty list would raise.
\<close>

fun expand_loop ::
  "shortest_path \<Rightarrow> graph \<Rightarrow> node list \<Rightarrow> quantity list \<Rightarrow> nat list \<Rightarrow> waypoint list
     \<Rightarrow> error + waypoint list" where
  "expand_loop sp G stops pickups [] out = Inr out"
| "expand_loop sp G stops pickups (i # rest) out =
     (if \<not> Suc i < length pickups then Inl IndexError
      else case sp G (stops ! i) (stops ! Suc i) of
        None \<Rightarrow> Inr []
      | Some full \<Rightarrow>
          if i = 0 \<and> full = [] then Inl IndexError
          else expand_loop sp G stops pickups rest
                 ((if i = 0 then out @ [(full ! 0, pickups ! i)] else out)
                    @ emit_tail full (pickups ! Suc i)))"

definition expand_path ::
  "shortest_path \<Rightarrow> graph \<Rightarrow> node list \<Rightarrow> quantity list \<Rightarrow> error + waypoint list" where
  "expand_path sp G stops pickups = expand_loop sp G stops pickups [0..<length stops - 1] []"

section \<open>Baseline builder\<close>

text \<open>
  The two inner loops of \<^verbatim>\<open>_baseline_admissible_path\<close>:
  \<^verbatim>\<open>for j in range(1, len(p)): out.append((p[j], 0.0))\<close>
\<close>

definition transit :: "node list \<Rightarrow> waypoint list" where
  "transit p = map (\<lambda>j. (p ! j, PyFloat 0)) [1..<length p]"

text \<open>
  \<^verbatim>\<open>float(G.nodes[i].get("gold", 0))\<close>, line 69, outside the \<^verbatim>\<open>try\<close>: \<^verbatim>\<open>G.nodes[i]\<close>
  raises for a node not in the graph, and \<^verbatim>\<open>float\<close> raises for an integer too large.
\<close>

definition node_gold :: "graph \<Rightarrow> node \<Rightarrow> error + quantity" where
  "node_gold G i =
     (if i \<notin> set (nodes G) then Inl KeyError
      else case py_float (case gold G i of None \<Rightarrow> PyInt 0 | Some g \<Rightarrow> g) of
             Inl e \<Rightarrow> Inl e
           | Inr r \<Rightarrow> Inr (PyFloat r))"

text \<open>
  The loop over \<^verbatim>\<open>range(1, G.number_of_nodes())\<close>: either library call failing skips
  the node (\<^verbatim>\<open>continue\<close>).
\<close>

fun baseline_loop ::
  "shortest_path \<Rightarrow> graph \<Rightarrow> node list \<Rightarrow> waypoint list \<Rightarrow> error + waypoint list" where
  "baseline_loop sp G [] out = Inr out"
| "baseline_loop sp G (i # rest) out =
     (case sp G 0 i of
        None \<Rightarrow> baseline_loop sp G rest out
      | Some path_0_i \<Rightarrow>
          (case sp G i 0 of
             None \<Rightarrow> baseline_loop sp G rest out
           | Some path_i_0 \<Rightarrow>
               (case node_gold G i of
                  Inl e \<Rightarrow> Inl e
                | Inr g \<Rightarrow>
                    baseline_loop sp G rest
                      (out @ transit path_0_i @ [(i, g)] @ transit path_i_0))))"

definition node_range :: "graph \<Rightarrow> node list" where
  "node_range G = map int [1..<number_of_nodes G]"

definition baseline_admissible_path :: "shortest_path \<Rightarrow> graph \<Rightarrow> error + waypoint list" where
  "baseline_admissible_path sp G =
     (case baseline_loop sp G (node_range G) [(0, PyFloat 0)] of
        Inl e \<Rightarrow> Inl e
      | Inr out \<Rightarrow> Inr (out @ [(0, PyFloat 0)]))"

section \<open>Route assembler\<close>

text \<open>
  The planner is external; its result \<^verbatim>\<open>sol.trips\<close> is the parameter \<open>trips\<close>, a list
  of trips, each with its stops and the parallel pickups.
\<close>

record trip =
  stops :: "node list"
  pickups :: "quantity list"

text \<open>
  Lines 114 to 116 of \<^verbatim>\<open>run\<close>, reached with a non-empty path only:
  \<^verbatim>\<open>if path[-1] != (0, 0) and path[-1] != (0, 0.0): path.append((0, 0))\<close>
\<close>

definition close_path :: "waypoint list \<Rightarrow> waypoint list" where
  "close_path path =
     (if \<not> py_eq (last path) (0, PyInt 0) \<and> \<not> py_eq (last path) (0, PyFloat 0)
      then path @ [(0, PyInt 0)] else path)"

text \<open>Lines 111 to 121: what \<^verbatim>\<open>run\<close> does once the loop over the trips is through.\<close>

definition run_finish :: "shortest_path \<Rightarrow> graph \<Rightarrow> waypoint list \<Rightarrow> error + waypoint list" where
  "run_finish sp G path =
     (if path = [] then baseline_admissible_path sp G
      else if \<not> is_valid G (close_path path) then baseline_admissible_path sp G
      else Inr (close_path path))"

text \<open>Lines 101 to 109: the loop over the trips, which returns the baseline at the first
  empty segment.\<close>

fun run_loop ::
  "shortest_path \<Rightarrow> graph \<Rightarrow> trip list \<Rightarrow> waypoint list \<Rightarrow> error + waypoint list" where
  "run_loop sp G [] path = run_finish sp G path"
| "run_loop sp G (t # rest) path =
     (case expand_path sp G (stops t) (pickups t) of
        Inl e \<Rightarrow> Inl e
      | Inr segment \<Rightarrow>
          if segment = [] then baseline_admissible_path sp G
          else run_loop sp G rest (path @ segment))"

definition run :: "shortest_path \<Rightarrow> graph \<Rightarrow> trip list \<Rightarrow> error + waypoint list" where
  "run sp G trips =
     (if trips = [] then baseline_admissible_path sp G else run_loop sp G trips [])"

section \<open>Notions used to state the properties\<close>

text \<open>
  What iteration \<open>i\<close> of the loop of \<^verbatim>\<open>_expand_path\<close> appends to \<open>out\<close> when the library
  returns a route: the first stop with its pickup in iteration 0, then the nodes after the
  first of the route.
\<close>

definition piece :: "shortest_path \<Rightarrow> graph \<Rightarrow> node list \<Rightarrow> quantity list \<Rightarrow> nat \<Rightarrow> waypoint list" where
  "piece sp G sts pks i =
     (case sp G (sts ! i) (sts ! Suc i) of
        None \<Rightarrow> []
      | Some full \<Rightarrow> (if i = 0 then [(sts ! 0, pks ! 0)] else []) @ emit_tail full (pks ! Suc i))"

text \<open>The sum of the quantities of a path, and of the pickups of all stops of all trips.\<close>

definition path_total :: "waypoint list \<Rightarrow> real" where
  "path_total p = sum_list (map (\<lambda>w. qval (snd w)) p)"

definition trips_total :: "trip list \<Rightarrow> real" where
  "trips_total ts = sum_list (map (\<lambda>t. sum_list (map qval (pickups t))) ts)"

text \<open>
  What iteration \<open>i\<close> of the loop of \<^verbatim>\<open>_baseline_admissible_path\<close> appends to \<open>out\<close> when
  it raises nothing: nothing when either library call fails, else the way there, the node
  with its gold, and the way back.
\<close>

definition round_trip :: "shortest_path \<Rightarrow> graph \<Rightarrow> node \<Rightarrow> waypoint list" where
  "round_trip sp G i =
     (case sp G 0 i of
        None \<Rightarrow> []
      | Some path_0_i \<Rightarrow>
          (case sp G i 0 of
             None \<Rightarrow> []
           | Some path_i_0 \<Rightarrow>
               (case node_gold G i of
                  Inl e \<Rightarrow> []
                | Inr g \<Rightarrow> transit path_0_i @ [(i, g)] @ transit path_i_0)))"

text \<open>
  The graphs on which line 69 cannot overflow: \<^verbatim>\<open>float\<close> converts the gold of every node
  the loop visits, that is of every \<open>i\<close> of \<^verbatim>\<open>range(1, G.number_of_nodes())\<close> with a route
  from the origin and a route back.
\<close>

definition gold_converts :: "graph \<Rightarrow> bool" where
  "gold_converts G =
     (\<forall>i\<in>set (node_range G). \<not> no_route G 0 i \<and> \<not> no_route G i 0 \<longrightarrow>
        (\<exists>r. py_float (case gold G i of None \<Rightarrow> PyInt 0 | Some g \<Rightarrow> g) = Inr r))"

text \<open>
  The segments \<^verbatim>\<open>run\<close> gets from the expander, one per trip in the planner's order, and the
  path it has assembled when it calls the checker: their concatenation, closed by lines
  114 to 116.
\<close>

definition segments :: "shortest_path \<Rightarrow> graph \<Rightarrow> trip list \<Rightarrow> waypoint list list" where
  "segments sp G trips =
     map (\<lambda>t. case expand_path sp G (stops t) (pickups t) of Inl e \<Rightarrow> [] | Inr s \<Rightarrow> s) trips"

definition assembled :: "shortest_path \<Rightarrow> graph \<Rightarrow> trip list \<Rightarrow> waypoint list" where
  "assembled sp G trips = close_path (concat (segments sp G trips))"

section \<open>Concrete inputs\<close>

text \<open>
  A graph with the nodes 0 to 3: the edges 0 -- 1 and 1 -- 2, node 3 isolated, gold 5 at
  node 1 (an integer attribute) and 7.5 at node 2; nodes 0 and 3 carry no gold attribute.
\<close>

definition G_line :: graph where
  "G_line = \<lparr> nodes = [0, 1, 2, 3], adj = [(0, 1), (1, 0), (1, 2), (2, 1)],
              gold = [1 \<mapsto> PyInt 5, 2 \<mapsto> PyFloat (15 / 2)] \<rparr>"

definition sp_line :: shortest_path where
  "sp_line = sp_table
     [((0, 0), [0]), ((1, 1), [1]), ((2, 2), [2]), ((3, 3), [3]),
      ((0, 1), [0, 1]), ((1, 0), [1, 0]), ((1, 2), [1, 2]), ((2, 1), [2, 1]),
      ((0, 2), [0, 1, 2]), ((2, 0), [2, 1, 0])]"

text \<open>
  The connected graph with the nodes 0, 1, 2 and the edges 0 -- 1 and 1 -- 2 (no edge
  0 -- 2), with the same gold.
\<close>

definition G_chain :: graph where
  "G_chain = \<lparr> nodes = [0, 1, 2], adj = [(0, 1), (1, 0), (1, 2), (2, 1)],
               gold = [1 \<mapsto> PyInt 5, 2 \<mapsto> PyFloat (15 / 2)] \<rparr>"

definition sp_chain :: shortest_path where
  "sp_chain = sp_table
     [((0, 0), [0]), ((1, 1), [1]), ((2, 2), [2]),
      ((0, 1), [0, 1]), ((1, 0), [1, 0]), ((1, 2), [1, 2]), ((2, 1), [2, 1]),
      ((0, 2), [0, 1, 2]), ((2, 0), [2, 1, 0])]"

text \<open>The graph with the single node 0 and no edge.\<close>

definition G_origin :: graph where
  "G_origin = \<lparr> nodes = [0], adj = [], gold = Map.empty \<rparr>"

definition sp_origin :: shortest_path where
  "sp_origin = sp_table [((0, 0), [0])]"

text \<open>The graph 0 -- 1 whose node 1 carries the integer \<open>2^1024\<close> as gold.\<close>

definition G_huge :: graph where
  "G_huge = \<lparr> nodes = [0, 1], adj = [(0, 1), (1, 0)], gold = [1 \<mapsto> PyInt (2 ^ 1024)] \<rparr>"

definition sp_huge :: shortest_path where
  "sp_huge = sp_table [((0, 0), [0]), ((1, 1), [1]), ((0, 1), [0, 1]), ((1, 0), [1, 0])]"

text \<open>A graph whose node labels are not consecutive: the nodes 0 and 5, joined by an edge.\<close>

definition G_gap :: graph where
  "G_gap = \<lparr> nodes = [0, 5], adj = [(0, 5), (5, 0)], gold = [5 \<mapsto> PyInt 9] \<rparr>"

definition sp_gap :: shortest_path where
  "sp_gap = sp_table [((0, 0), [0]), ((5, 5), [5]), ((0, 5), [0, 5]), ((5, 0), [5, 0])]"

section \<open>Lists\<close>

lemma map_nth_tl: "map (\<lambda>j. p ! j) [1..<length p] = tl p"
proof -
  have "tl p = drop 1 (map (\<lambda>j. p ! j) [0..<length p])"
    by (simp add: map_nth drop_Suc)
  also have "\<dots> = map (\<lambda>j. p ! j) (drop 1 [0..<length p])"
    by (simp only: drop_map)
  also have "drop 1 [0..<length p] = [1..<length p]"
    by (simp add: drop_upt)
  finally show ?thesis by simp
qed

lemma upt_split: "i < n \<Longrightarrow> [0..<n] = [0..<i] @ i # [Suc i..<n]"
proof -
  assume i: "i < n"
  have "[0..<n] = [0..<i] @ [i..<n]"
    using i upt_add_eq_append [of 0 i "n - i"] by simp
  then show ?thesis using i by (simp add: upt_conv_Cons)
qed

lemma nth_append_last: "xs \<noteq> [] \<Longrightarrow> (xs @ ys) ! (length xs - 1) = last xs"
  by (simp add: nth_append last_conv_nth)

lemma sum_list_first_only:
  "0 < n \<Longrightarrow> sum_list (map (\<lambda>i. if i = 0 then c else (0::real)) [0..<n]) = c"
proof -
  assume "0 < n"
  then have up: "[0..<n] = 0 # [1..<n]" by (simp add: upt_conv_Cons)
  have "sum_list (map (\<lambda>i. if i = 0 then c else (0::real)) [Suc 0..<n])
        = sum_list (map (\<lambda>i. 0) [Suc 0..<n])"
    by (rule arg_cong [of _ _ sum_list], rule map_cong) auto
  then have "sum_list (map (\<lambda>i. if i = 0 then c else (0::real)) [Suc 0..<n]) = 0"
    by simp
  then show ?thesis unfolding up by simp
qed

lemma sum_list_shift:
  assumes "pks \<noteq> []"
  shows "sum_list (map qval pks) =
           qval (pks ! 0) + sum_list (map (\<lambda>i. qval (pks ! Suc i)) [0..<length pks - 1])"
proof -
  obtain x xs where p: "pks = x # xs" using assms by (cases pks) auto
  have "map (\<lambda>i. qval (pks ! Suc i)) [0..<length pks - 1] = map qval (map (\<lambda>i. xs ! i) [0..<length xs])"
    using p by simp
  also have "\<dots> = map qval xs" by (simp only: map_nth)
  finally show ?thesis using p by simp
qed

lemma concat_filter_skip:
  "\<forall>i\<in>set idx. \<not> P i \<longrightarrow> f i = [] \<Longrightarrow> concat (map f (filter P idx)) = concat (map f idx)"
  by (induction idx) auto

section \<open>The checker, pair by pair\<close>

lemma edges_ok_zip:
  "edges_ok G (zip path (drop 1 path)) \<longleftrightarrow>
     (\<forall>i. Suc i < length path \<longrightarrow> has_edge G (fst (path ! i)) (fst (path ! Suc i)))"
proof (induction path)
  case Nil
  show ?case by simp
next
  case (Cons w path)
  show ?case
  proof (cases path)
    case Nil
    then show ?thesis by simp
  next
    case (Cons w' path')
    obtain n1 q1 where w: "w = (n1, q1)" by (cases w)
    obtain n2 q2 where w': "w' = (n2, q2)" by (cases w')
    have step: "edges_ok G (zip (w # path) (drop 1 (w # path))) \<longleftrightarrow>
                  has_edge G n1 n2 \<and> edges_ok G (zip path (drop 1 path))"
      using Cons w w' by simp
    have "(\<forall>i. Suc i < length (w # path) \<longrightarrow>
              has_edge G (fst ((w # path) ! i)) (fst ((w # path) ! Suc i))) \<longleftrightarrow>
          has_edge G n1 n2 \<and>
          (\<forall>i. Suc i < length path \<longrightarrow> has_edge G (fst (path ! i)) (fst (path ! Suc i)))"
      (is "?L \<longleftrightarrow> ?R")
    proof
      assume L: ?L
      have "has_edge G n1 n2" using L [rule_format, of 0] Cons w w' by simp
      moreover have "\<forall>i. Suc i < length path \<longrightarrow>
                       has_edge G (fst (path ! i)) (fst (path ! Suc i))"
      proof (intro allI impI)
        fix i assume "Suc i < length path"
        then show "has_edge G (fst (path ! i)) (fst (path ! Suc i))"
          using L [rule_format, of "Suc i"] by simp
      qed
      ultimately show ?R by simp
    next
      assume R: ?R
      show ?L
      proof (intro allI impI)
        fix i assume i: "Suc i < length (w # path)"
        show "has_edge G (fst ((w # path) ! i)) (fst ((w # path) ! Suc i))"
        proof (cases i)
          case 0
          then show ?thesis using R Cons w w' by simp
        next
          case (Suc k)
          then show ?thesis using R i by simp
        qed
      qed
    qed
    with step Cons.IH show ?thesis by simp
  qed
qed

lemma is_valid_edge:
  assumes "is_valid G path" "Suc k < length path"
  shows "has_edge G (fst (path ! k)) (fst (path ! Suc k))"
proof -
  have "edges_ok G (zip path (drop 1 path))"
    using assms(1) by (auto simp: is_valid_def split: if_splits)
  then show ?thesis using assms(2) edges_ok_zip by blast
qed

section \<open>Routes and the library contract\<close>

lemma contract_route: "sp_contract sp G \<Longrightarrow> sp G a b = Some p \<Longrightarrow> is_route G a b p"
  unfolding sp_contract_def by (metis option.simps(5))

lemma contract_no_route: "sp_contract sp G \<Longrightarrow> sp G a b = None \<Longrightarrow> no_route G a b"
  unfolding sp_contract_def by (metis option.simps(4))

lemma route_not_no_route: "is_route G a b p \<Longrightarrow> \<not> no_route G a b"
proof -
  assume r: "is_route G a b p"
  then have "p \<noteq> []" "hd p = a" "last p = b" "set p \<subseteq> set (nodes G)"
    by (simp_all add: is_route_def)
  then have "a \<in> set (nodes G)" "b \<in> set (nodes G)"
    using hd_in_set last_in_set by blast+
  with r show ?thesis by (auto simp: no_route_def)
qed

lemma contract_None_iff: "sp_contract sp G \<Longrightarrow> sp G a b = None \<longleftrightarrow> no_route G a b"
  using contract_no_route contract_route route_not_no_route
  by (metis option.exhaust)

lemma route_length: "is_route G a b p \<Longrightarrow> a \<noteq> b \<Longrightarrow> 2 \<le> length p"
proof -
  assume r: "is_route G a b p" and ab: "a \<noteq> b"
  then obtain x xs where p: "p = x # xs" by (cases p) (auto simp: is_route_def)
  with r ab have "xs \<noteq> []" by (auto simp: is_route_def)
  with p show ?thesis by (cases xs) simp_all
qed

lemma route_first_edge: "is_route G a b p \<Longrightarrow> a \<noteq> b \<Longrightarrow> \<exists>v. has_edge G a v"
proof -
  assume r: "is_route G a b p" and ab: "a \<noteq> b"
  then obtain x xs where p: "p = x # xs" by (cases p) (auto simp: is_route_def)
  with r ab obtain y ys where "xs = y # ys" by (cases xs) (auto simp: is_route_def)
  with p r show ?thesis by (auto simp: is_route_def)
qed

lemma successively_last_edge:
  "successively P (x # xs) \<Longrightarrow> xs \<noteq> [] \<Longrightarrow> \<exists>u. P u (last (x # xs))"
proof (induction xs arbitrary: x)
  case Nil
  then show ?case by simp
next
  case (Cons y ys)
  show ?case
  proof (cases ys)
    case Nil
    with Cons.prems show ?thesis by auto
  next
    case (Cons z zs)
    with Cons.prems Cons.IH [of y] show ?thesis by auto
  qed
qed

lemma route_last_edge: "is_route G a b p \<Longrightarrow> a \<noteq> b \<Longrightarrow> \<exists>u. has_edge G u b"
proof -
  assume r: "is_route G a b p" and ab: "a \<noteq> b"
  then obtain x xs where p: "p = x # xs" by (cases p) (auto simp: is_route_def)
  with r ab have "xs \<noteq> []" by (auto simp: is_route_def)
  with p r successively_last_edge [of "has_edge G" x xs] show ?thesis
    by (auto simp: is_route_def)
qed

lemma route_target_node: "is_route G a b p \<Longrightarrow> b \<in> set (nodes G)"
  using last_in_set by (fastforce simp: is_route_def)

section \<open>The inner loops\<close>

lemma transit_tl: "transit p = map (\<lambda>v. (v, PyFloat 0)) (tl p)"
proof -
  have "transit p = map (\<lambda>v. (v, PyFloat 0)) (map (\<lambda>j. p ! j) [1..<length p])"
    by (simp add: transit_def)
  then show ?thesis by (simp only: map_nth_tl)
qed

lemma emit_tail_short: "length full \<le> 1 \<Longrightarrow> emit_tail full q = []"
  by (simp add: emit_tail_def)

lemma emit_tail_long:
  assumes "2 \<le> length full"
  shows "emit_tail full q = map (\<lambda>v. (v, PyFloat 0)) (butlast (tl full)) @ [(last full, q)]"
proof -
  obtain n where n: "length full = Suc (Suc n)"
    using assms by (metis Suc_le_D numeral_2_eq_2 Suc_le_mono le_Suc_ex add_Suc plus_nat.add_0)
  have ne: "full \<noteq> []" "tl full \<noteq> []" using n by (auto simp: length_Suc_conv)
  have up: "[1..<length full] = [1..<Suc n] @ [Suc n]" using n by simp
  have a: "map (\<lambda>j. (full ! j, if j = length full - 1 then q else PyFloat 0)) [1..<Suc n]
           = map (\<lambda>j. (full ! j, PyFloat 0)) [1..<Suc n]"
    using n by simp
  have b: "map (\<lambda>j. full ! j) [1..<Suc n] = butlast (tl full)"
  proof -
    have "butlast (tl full) = butlast (map (\<lambda>j. full ! j) [1..<length full])"
      by (simp only: map_nth_tl)
    also have "\<dots> = map (\<lambda>j. full ! j) [1..<Suc n]"
      by (simp only: up map_append butlast_snoc list.map)
    finally show ?thesis by simp
  qed
  have c: "full ! Suc n = last full" using n ne by (simp add: last_conv_nth)
  have "emit_tail full q = map (\<lambda>j. (full ! j, PyFloat 0)) [1..<Suc n] @ [(full ! Suc n, q)]"
    unfolding emit_tail_def up map_append a using n by simp
  also have "map (\<lambda>j. (full ! j, PyFloat 0)) [1..<Suc n]
             = map (\<lambda>v. (v, PyFloat 0)) (map (\<lambda>j. full ! j) [1..<Suc n])"
    by simp
  finally show ?thesis by (simp only: b c)
qed

lemma transit_ends:
  assumes r: "is_route G a b p" and ab: "a \<noteq> b"
  shows "\<exists>pre. transit p = pre @ [(b, PyFloat 0)]"
proof -
  from r ab obtain x xs where p: "p = x # xs" by (cases p) (auto simp: is_route_def)
  with r ab have xs: "xs \<noteq> []" by (auto simp: is_route_def)
  have "last xs = b" using r p xs by (simp add: is_route_def)
  then have "xs = butlast xs @ [b]" using xs by (metis append_butlast_last_id)
  then have "transit p = map (\<lambda>v. (v, PyFloat 0)) (butlast xs) @ [(b, PyFloat 0)]"
    unfolding transit_tl p by (metis list.sel(3) map_append list.simps(8,9))
  then show ?thesis by blast
qed

lemma path_total_append: "path_total (p @ q) = path_total p + path_total q"
  by (simp add: path_total_def)

lemma path_total_concat:
  "path_total (concat xss) = sum_list (map path_total xss)"
  by (induction xss) (simp_all add: path_total_append, simp add: path_total_def)

lemma path_total_emit_tail:
  "path_total (emit_tail full q) = (if 2 \<le> length full then qval q else 0)"
proof (cases "2 \<le> length full")
  case True
  then show ?thesis by (simp add: emit_tail_long path_total_def comp_def)
next
  case False
  then have "length full \<le> 1" by simp
  then show ?thesis using False by (simp add: emit_tail_short path_total_def)
qed

section \<open>The loop of the expander\<close>

lemma expand_loop_step:
  assumes c: "sp_contract sp G"
    and i: "Suc i < length pks" "sp G (sts ! i) (sts ! Suc i) \<noteq> None"
  shows "expand_loop sp G sts pks (i # rest) out =
           expand_loop sp G sts pks rest (out @ piece sp G sts pks i)"
proof -
  from i obtain full where full: "sp G (sts ! i) (sts ! Suc i) = Some full" by auto
  have r: "is_route G (sts ! i) (sts ! Suc i) full" by (rule contract_route [OF c full])
  then have ne: "full \<noteq> []" and h: "full ! 0 = sts ! i"
    by (auto simp: is_route_def hd_conv_nth)
  show ?thesis using i(1) full ne h by (simp add: piece_def)
qed

lemma expand_loop_prefix:
  assumes c: "sp_contract sp G"
  shows "\<forall>i\<in>set pre. Suc i < length pks \<and> sp G (sts ! i) (sts ! Suc i) \<noteq> None \<Longrightarrow>
         expand_loop sp G sts pks (pre @ rest) out =
           expand_loop sp G sts pks rest (out @ concat (map (piece sp G sts pks) pre))"
proof (induction pre arbitrary: out)
  case Nil
  show ?case by simp
next
  case (Cons i pre)
  have "expand_loop sp G sts pks ((i # pre) @ rest) out =
          expand_loop sp G sts pks (pre @ rest) (out @ piece sp G sts pks i)"
    using Cons.prems expand_loop_step [OF c, of i pks sts "pre @ rest" out] by simp
  also have "\<dots> = expand_loop sp G sts pks rest
                      ((out @ piece sp G sts pks i) @ concat (map (piece sp G sts pks) pre))"
    using Cons.prems by (intro Cons.IH) simp
  finally show ?case by simp
qed

lemma expand_loop_all:
  assumes c: "sp_contract sp G"
    and ok: "\<forall>i\<in>set idx. Suc i < length pks \<and> sp G (sts ! i) (sts ! Suc i) \<noteq> None"
  shows "expand_loop sp G sts pks idx out = Inr (out @ concat (map (piece sp G sts pks) idx))"
  using expand_loop_prefix [OF c ok, of "[]" out] by simp

lemma expand_loop_no_route:
  assumes c: "sp_contract sp G"
    and ok: "\<forall>i\<in>set pre. Suc i < length pks \<and> sp G (sts ! i) (sts ! Suc i) \<noteq> None"
    and i: "Suc i < length pks" "sp G (sts ! i) (sts ! Suc i) = None"
  shows "expand_loop sp G sts pks (pre @ i # rest) out = Inr []"
  using expand_loop_prefix [OF c ok, of "i # rest" out] i by simp

lemma expand_loop_index_error:
  assumes c: "sp_contract sp G"
    and ok: "\<forall>i\<in>set pre. Suc i < length pks \<and> sp G (sts ! i) (sts ! Suc i) \<noteq> None"
    and i: "\<not> Suc i < length pks"
  shows "expand_loop sp G sts pks (pre @ i # rest) out = Inl IndexError"
  using expand_loop_prefix [OF c ok, of "i # rest" out] i by simp

lemma piece_0_nonempty:
  "sp G (sts ! 0) (sts ! Suc 0) \<noteq> None \<Longrightarrow> piece sp G sts pks 0 \<noteq> []"
  by (auto simp: piece_def)

lemma expand_path_parallel:
  assumes c: "sp_contract sp G" and len: "length sts \<le> length pks"
  shows "expand_path sp G sts pks =
           (if \<exists>i. Suc i < length sts \<and> sp G (sts ! i) (sts ! Suc i) = None then Inr []
            else Inr (concat (map (piece sp G sts pks) [0..<length sts - 1])))"
proof (cases "\<exists>i. Suc i < length sts \<and> sp G (sts ! i) (sts ! Suc i) = None")
  case True
  define i where "i = (LEAST i. Suc i < length sts \<and> sp G (sts ! i) (sts ! Suc i) = None)"
  have bad: "Suc i < length sts \<and> sp G (sts ! i) (sts ! Suc i) = None"
    unfolding i_def by (rule LeastI_ex [OF True])
  have least: "\<not> (Suc j < length sts \<and> sp G (sts ! j) (sts ! Suc j) = None)" if "j < i" for j
    using that not_less_Least unfolding i_def by blast
  have "i < length sts - 1" using bad by linarith
  then have split: "[0..<length sts - 1] = [0..<i] @ i # [Suc i..<length sts - 1]"
    by (rule upt_split)
  have ok: "\<forall>j\<in>set [0..<i]. Suc j < length pks \<and> sp G (sts ! j) (sts ! Suc j) \<noteq> None"
  proof
    fix j assume "j \<in> set [0..<i]"
    then have "j < i" by simp
    with least [of j] bad len show "Suc j < length pks \<and> sp G (sts ! j) (sts ! Suc j) \<noteq> None"
      by auto
  qed
  have "expand_loop sp G sts pks ([0..<i] @ i # [Suc i..<length sts - 1]) [] = Inr []"
    using bad len by (intro expand_loop_no_route [OF c ok]) simp_all
  then have e: "expand_path sp G sts pks = Inr []" by (simp only: expand_path_def split)
  show ?thesis by (simp only: e if_P [OF True])
next
  case False
  then have ok: "\<forall>i\<in>set [0..<length sts - 1].
                   Suc i < length pks \<and> sp G (sts ! i) (sts ! Suc i) \<noteq> None"
    using len by auto
  have "expand_path sp G sts pks = Inr ([] @ concat (map (piece sp G sts pks) [0..<length sts - 1]))"
    unfolding expand_path_def by (rule expand_loop_all [OF c ok])
  then have e: "expand_path sp G sts pks = Inr (concat (map (piece sp G sts pks) [0..<length sts - 1]))"
    by simp
  show ?thesis by (simp only: e if_not_P [OF False])
qed

lemma expand_path_no_error:
  assumes "sp_contract sp G" "length sts \<le> length pks"
  shows "\<exists>seg. expand_path sp G sts pks = Inr seg"
  using expand_path_parallel [OF assms] by simp

lemma path_total_piece:
  assumes c: "sp_contract sp G" and s: "sp G (sts ! i) (sts ! Suc i) \<noteq> None"
    and d: "sts ! i \<noteq> sts ! Suc i"
  shows "path_total (piece sp G sts pks i) =
           (if i = 0 then qval (pks ! 0) else 0) + qval (pks ! Suc i)"
proof -
  from s obtain full where full: "sp G (sts ! i) (sts ! Suc i) = Some full" by auto
  have "2 \<le> length full"
    using route_length [OF contract_route [OF c full] d] .
  then show ?thesis
    using full by (simp add: piece_def path_total_append path_total_emit_tail) (simp add: path_total_def)
qed

lemma expand_path_sum:
  assumes c: "sp_contract sp G" and len: "length pks = length sts"
    and d: "distinct_adj sts"
    and e: "expand_path sp G sts pks = Inr seg" and ne: "seg \<noteq> []"
  shows "path_total seg = sum_list (map qval pks)"
proof -
  let ?n = "length sts - 1"
  have le: "length sts \<le> length pks" using len by simp
  have all: "\<not> (\<exists>i. Suc i < length sts \<and> sp G (sts ! i) (sts ! Suc i) = None)"
    using expand_path_parallel [OF c le] e ne by (auto split: if_splits)
  have seg: "seg = concat (map (piece sp G sts pks) [0..<?n])"
    using expand_path_parallel [OF c le] e by (simp only: if_not_P [OF all] sum.inject)
  have n: "0 < ?n" using seg ne by (cases "?n") auto
  have pks: "pks \<noteq> []" using n len by auto
  have each: "path_total (piece sp G sts pks i) =
                (if i = 0 then qval (pks ! 0) else 0) + qval (pks ! Suc i)" if "i < ?n" for i
  proof -
    have i: "Suc i < length sts" using that by simp
    show ?thesis
      using all i distinct_adj_nth [OF d i] by (intro path_total_piece [OF c]) auto
  qed
  have "path_total seg = sum_list (map (\<lambda>i. path_total (piece sp G sts pks i)) [0..<?n])"
    by (simp add: seg path_total_concat comp_def)
  also have "\<dots> = sum_list (map (\<lambda>i. (if i = 0 then qval (pks ! 0) else 0) + qval (pks ! Suc i)) [0..<?n])"
    using each by (intro arg_cong [of _ _ sum_list] map_cong) auto
  also have "\<dots> = sum_list (map (\<lambda>i. if i = 0 then qval (pks ! 0) else 0) [0..<?n])
                   + sum_list (map (\<lambda>i. qval (pks ! Suc i)) [0..<?n])"
    by (simp add: sum_list_addf)
  also have "\<dots> = qval (pks ! 0) + sum_list (map (\<lambda>i. qval (pks ! Suc i)) [0..<length pks - 1])"
    using n len by (simp only: sum_list_first_only)
  also have "\<dots> = sum_list (map qval pks)"
    using sum_list_shift [OF pks] by simp
  finally show ?thesis .
qed

text \<open>
  The placement of the pickups when no two consecutive stops are equal: the first stop with
  its pickup, then for every pair of stops the inner nodes of the route with quantity
  \<^verbatim>\<open>0.0\<close> and the second stop with its pickup.
\<close>

lemma expand_path_placement:
  assumes c: "sp_contract sp G" and len: "length pks = length sts"
    and d: "distinct_adj sts"
    and e: "expand_path sp G sts pks = Inr seg" and ne: "seg \<noteq> []"
  shows "seg = (sts ! 0, pks ! 0) #
           concat (map (\<lambda>i. map (\<lambda>v. (v, PyFloat 0))
                               (butlast (tl (the (sp G (sts ! i) (sts ! Suc i)))))
                             @ [(sts ! Suc i, pks ! Suc i)])
                       [0..<length sts - 1])"
proof -
  let ?n = "length sts - 1"
  let ?leg = "\<lambda>i. map (\<lambda>v. (v, PyFloat 0)) (butlast (tl (the (sp G (sts ! i) (sts ! Suc i)))))
                  @ [(sts ! Suc i, pks ! Suc i)]"
  have le: "length sts \<le> length pks" using len by simp
  have all: "\<not> (\<exists>i. Suc i < length sts \<and> sp G (sts ! i) (sts ! Suc i) = None)"
    using expand_path_parallel [OF c le] e ne by (auto split: if_splits)
  have seg: "seg = concat (map (piece sp G sts pks) [0..<?n])"
    using expand_path_parallel [OF c le] e by (simp only: if_not_P [OF all] sum.inject)
  have n: "0 < ?n" using seg ne by (cases "?n") auto
  have each: "piece sp G sts pks i = (if i = 0 then [(sts ! 0, pks ! 0)] else []) @ ?leg i"
    if "i < ?n" for i
  proof -
    have i: "Suc i < length sts" using that by simp
    with all obtain full where full: "sp G (sts ! i) (sts ! Suc i) = Some full" by auto
    have r: "is_route G (sts ! i) (sts ! Suc i) full" by (rule contract_route [OF c full])
    have "2 \<le> length full" by (rule route_length [OF r distinct_adj_nth [OF d i]])
    moreover have "last full = sts ! Suc i" using r by (simp add: is_route_def)
    ultimately show ?thesis using full by (simp add: piece_def emit_tail_long)
  qed
  have up: "[0..<?n] = 0 # [Suc 0..<?n]" using n by (simp add: upt_conv_Cons)
  have m: "map (piece sp G sts pks) [Suc 0..<?n] = map ?leg [Suc 0..<?n]"
    by (rule map_cong) (auto simp: each)
  have p0: "piece sp G sts pks 0 = (sts ! 0, pks ! 0) # ?leg 0"
    using each [OF n] by simp
  have "concat (map (piece sp G sts pks) [0..<?n]) =
          piece sp G sts pks 0 @ concat (map (piece sp G sts pks) [Suc 0..<?n])"
    by (simp only: up list.map concat.simps)
  also have "\<dots> = (sts ! 0, pks ! 0) # (?leg 0 @ concat (map ?leg [Suc 0..<?n]))"
    by (simp only: m p0 append_Cons)
  also have "?leg 0 @ concat (map ?leg [Suc 0..<?n]) = concat (map ?leg [0..<?n])"
    by (simp only: up list.map concat.simps)
  finally have "concat (map (piece sp G sts pks) [0..<?n]) =
                     (sts ! 0, pks ! 0) # concat (map ?leg [0..<?n])" .
  with seg show ?thesis by simp
qed

section \<open>The conversion to float\<close>

lemma bit_length_eq: "2 ^ m \<le> n \<Longrightarrow> n < 2 ^ Suc m \<Longrightarrow> bit_length n = Suc m"
proof (induction m arbitrary: n)
  case 0
  then have "n = 1" by simp
  then show ?case by (simp add: bit_length.simps)
next
  case (Suc m)
  have "2 ^ m \<le> n div 2" using Suc.prems(1) by simp
  moreover have "n div 2 < 2 ^ Suc m" using Suc.prems(2) by simp
  ultimately have "bit_length (n div 2) = Suc m" by (rule Suc.IH)
  moreover have "(0::nat) < 2 ^ Suc m" by simp
  then have "n \<noteq> 0" using Suc.prems(1) by linarith
  ultimately show ?case by (simp add: bit_length.simps [of n])
qed

text \<open>
  The integer \<open>2^53 + 1\<close> is not a double: \<^verbatim>\<open>float\<close> gives \<open>2^53\<close>.
\<close>

lemma py_float_rounds: "py_float (PyInt (2 ^ 53 + 1)) = Inr (2 ^ 53)"
proof -
  have b: "bit_length (2 ^ 53 + 1) = 54"
    using bit_length_eq [of 53 "2 ^ 53 + 1"] by simp
  have "round_half_even (2 ^ 53 + 1) = 2 ^ 53"
    unfolding round_half_even_def b by simp
  then show ?thesis by (simp add: py_float_int_def nat_add_distrib nat_power_eq)
qed

lemma py_float_error: "py_float q = Inl e \<Longrightarrow> e = OverflowError"
  by (cases q) (auto simp: py_float_int_def split: if_splits)

section \<open>The loop of the baseline builder\<close>

lemma baseline_loop_Inr:
  "baseline_loop sp G idx out = Inr res \<Longrightarrow> res = out @ concat (map (round_trip sp G) idx)"
proof (induction idx arbitrary: out)
  case Nil
  then show ?case by simp
next
  case (Cons i idx)
  show ?case
  proof (cases "sp G 0 i")
    case None
    then show ?thesis using Cons by (simp add: round_trip_def)
  next
    case p0: (Some p0)
    show ?thesis
    proof (cases "sp G i 0")
      case None
      then show ?thesis using p0 Cons by (simp add: round_trip_def)
    next
      case p1: (Some p1)
      show ?thesis
      proof (cases "node_gold G i")
        case (Inl e)
        then show ?thesis using p0 p1 Cons.prems by simp
      next
        case (Inr g)
        then have "baseline_loop sp G idx (out @ transit p0 @ [(i, g)] @ transit p1) = Inr res"
          using p0 p1 Cons.prems by simp
        from Cons.IH [OF this] show ?thesis using p0 p1 Inr by (simp add: round_trip_def)
      qed
    qed
  qed
qed

lemma baseline_loop_total:
  "\<forall>i\<in>set idx. sp G 0 i \<noteq> None \<and> sp G i 0 \<noteq> None \<longrightarrow> (\<exists>g. node_gold G i = Inr g) \<Longrightarrow>
   \<exists>res. baseline_loop sp G idx out = Inr res"
proof (induction idx arbitrary: out)
  case Nil
  show ?case by simp
next
  case (Cons i idx)
  have rest: "\<forall>i\<in>set idx. sp G 0 i \<noteq> None \<and> sp G i 0 \<noteq> None \<longrightarrow> (\<exists>g. node_gold G i = Inr g)"
    using Cons.prems by simp
  show ?case
  proof (cases "sp G 0 i \<noteq> None \<and> sp G i 0 \<noteq> None")
    case True
    then obtain p0 p1 g where "sp G 0 i = Some p0" "sp G i 0 = Some p1" "node_gold G i = Inr g"
      using Cons.prems by auto
    then show ?thesis using Cons.IH [OF rest] by simp
  next
    case False
    then show ?thesis using Cons.IH [OF rest] by (auto split: option.split)
  qed
qed

lemma node_gold_converts:
  assumes c: "sp_contract sp G" and gc: "gold_converts G"
    and i: "i \<in> set (node_range G)" and p: "sp G 0 i \<noteq> None" "sp G i 0 \<noteq> None"
  shows "\<exists>g. node_gold G i = Inr g"
proof -
  from p obtain p0 where p0: "sp G 0 i = Some p0" by auto
  have node: "i \<in> set (nodes G)"
    by (rule route_target_node [OF contract_route [OF c p0]])
  have "\<not> no_route G 0 i \<and> \<not> no_route G i 0"
    using p contract_None_iff [OF c] by simp
  then obtain r where "py_float (case gold G i of None \<Rightarrow> PyInt 0 | Some g \<Rightarrow> g) = Inr r"
    using gc i unfolding gold_converts_def by blast
  then show ?thesis using node by (simp add: node_gold_def)
qed

lemma baseline_Inr:
  assumes "baseline_admissible_path sp G = Inr out"
  shows "out = (0, PyFloat 0) # concat (map (round_trip sp G) (node_range G)) @ [(0, PyFloat 0)]"
proof -
  from assms obtain res where res: "baseline_loop sp G (node_range G) [(0, PyFloat 0)] = Inr res"
    and out: "out = res @ [(0, PyFloat 0)]"
    by (auto simp: baseline_admissible_path_def split: sum.splits)
  show ?thesis using baseline_loop_Inr [OF res] out by simp
qed

lemma baseline_total:
  assumes c: "sp_contract sp G" and gc: "gold_converts G"
  shows "\<exists>out. baseline_admissible_path sp G = Inr out"
proof -
  have "\<forall>i\<in>set (node_range G).
          sp G 0 i \<noteq> None \<and> sp G i 0 \<noteq> None \<longrightarrow> (\<exists>g. node_gold G i = Inr g)"
    using node_gold_converts [OF c gc] by blast
  then obtain res where "baseline_loop sp G (node_range G) [(0, PyFloat 0)] = Inr res"
    using baseline_loop_total by blast
  then show ?thesis by (simp add: baseline_admissible_path_def)
qed

lemma baseline_eq:
  assumes c: "sp_contract sp G" and gc: "gold_converts G"
  shows "baseline_admissible_path sp G =
           Inr ((0, PyFloat 0) # concat (map (round_trip sp G) (node_range G)) @ [(0, PyFloat 0)])"
  using baseline_total [OF c gc] baseline_Inr by blast

lemma baseline_Inr_last:
  assumes "baseline_admissible_path sp G = Inr out"
  shows "out \<noteq> [] \<and> last out = (0, PyFloat 0)"
  using baseline_Inr [OF assms] by simp

lemma baseline_loop_filter:
  assumes c: "sp_contract sp G"
  shows "baseline_loop sp G (filter (\<lambda>i. \<not> no_route G 0 i \<and> \<not> no_route G i 0) idx) out =
         baseline_loop sp G idx out"
proof (induction idx arbitrary: out)
  case Nil
  show ?case by simp
next
  case (Cons i idx)
  show ?case
  proof (cases "\<not> no_route G 0 i \<and> \<not> no_route G i 0")
    case True
    then obtain p0 p1 where "sp G 0 i = Some p0" "sp G i 0 = Some p1"
      using contract_None_iff [OF c] by (metis option.exhaust)
    then show ?thesis using True Cons.IH by (simp split: sum.split)
  next
    case False
    then have "sp G 0 i = None \<or> sp G i 0 = None"
      using contract_None_iff [OF c] by simp
    then show ?thesis using False Cons.IH by (auto split: option.split)
  qed
qed

lemma node_gold_error:
  "i \<in> set (nodes G) \<Longrightarrow> node_gold G i = Inl e \<Longrightarrow> e = OverflowError"
  by (auto simp: node_gold_def split: sum.splits dest: py_float_error)

lemma baseline_loop_Inl:
  assumes c: "sp_contract sp G"
  shows "baseline_loop sp G idx out = Inl e \<Longrightarrow> e = OverflowError"
proof (induction idx arbitrary: out)
  case Nil
  then show ?case by simp
next
  case (Cons i idx)
  show ?case
  proof (cases "sp G 0 i")
    case None
    then show ?thesis using Cons by simp
  next
    case p0: (Some p0)
    have node: "i \<in> set (nodes G)"
      by (rule route_target_node [OF contract_route [OF c p0]])
    show ?thesis
    proof (cases "sp G i 0")
      case None
      then show ?thesis using p0 Cons by simp
    next
      case p1: (Some p1)
      show ?thesis
      proof (cases "node_gold G i")
        case (Inl e')
        then have "e' = e" using p0 p1 Cons.prems by simp
        then show ?thesis using node_gold_error [OF node] Inl by simp
      next
        case (Inr g)
        then show ?thesis using p0 p1 Cons by simp
      qed
    qed
  qed
qed

lemma baseline_Inl:
  assumes c: "sp_contract sp G" and b: "baseline_admissible_path sp G = Inl e"
  shows "e = OverflowError"
proof -
  from b have "baseline_loop sp G (node_range G) [(0, PyFloat 0)] = Inl e"
    by (auto simp: baseline_admissible_path_def split: sum.splits)
  then show ?thesis by (rule baseline_loop_Inl [OF c])
qed

lemma round_trip_skip:
  assumes c: "sp_contract sp G" and n: "no_route G 0 i \<or> no_route G i 0"
  shows "round_trip sp G i = []"
proof -
  from n have "sp G 0 i = None \<or> sp G i 0 = None"
    using contract_None_iff [OF c] by simp
  then show ?thesis by (auto simp: round_trip_def split: option.split)
qed

lemma baseline_single:
  assumes "set (nodes G) = {0}"
  shows "baseline_admissible_path sp G = Inr [(0, PyFloat 0), (0, PyFloat 0)]"
proof -
  have "card (set (nodes G)) = 1" using assms by simp
  then have "number_of_nodes G = 1" by (simp add: number_of_nodes_def length_remdups_card_conv)
  then show ?thesis by (simp add: baseline_admissible_path_def node_range_def)
qed

lemma round_trip_ends:
  assumes c: "sp_contract sp G" and i: "i \<noteq> 0" and ne: "round_trip sp G i \<noteq> []"
  shows "\<exists>pre. round_trip sp G i = pre @ [(0, PyFloat 0)]"
proof -
  from ne obtain p0 p1 g where p0: "sp G 0 i = Some p0" and p1: "sp G i 0 = Some p1"
    and g: "node_gold G i = Inr g"
    by (auto simp: round_trip_def split: option.splits sum.splits)
  obtain t where "transit p1 = t @ [(0, PyFloat 0)]"
    using transit_ends [OF contract_route [OF c p1] i] by blast
  then have "round_trip sp G i = (transit p0 @ [(i, g)] @ t) @ [(0, PyFloat 0)]"
    using p0 p1 g by (simp add: round_trip_def)
  then show ?thesis by blast
qed

lemma round_trips_end:
  assumes c: "sp_contract sp G"
  shows "\<forall>i\<in>set idx. i \<noteq> 0 \<Longrightarrow>
         fst (last ((0, PyFloat 0) # concat (map (round_trip sp G) idx))) = 0"
proof (induction idx rule: rev_induct)
  case Nil
  show ?case by simp
next
  case (snoc i idx)
  show ?case
  proof (cases "round_trip sp G i = []")
    case True
    then show ?thesis using snoc by simp
  next
    case False
    have "i \<noteq> 0" using snoc.prems by simp
    then obtain pre where "round_trip sp G i = pre @ [(0, PyFloat 0)]"
      using round_trip_ends [OF c _ False] by blast
    then show ?thesis by simp
  qed
qed

text \<open>
  A node of \<^verbatim>\<open>range(1, G.number_of_nodes())\<close> with a route from the origin and a route
  back is in the baseline path twice in a row, first in transit, then with its gold.
\<close>

lemma baseline_round_trip_in_range:
  assumes c: "sp_contract sp G" and gc: "gold_converts G"
    and i: "1 \<le> i" "i < int (number_of_nodes G)"
    and r: "\<not> no_route G 0 i" "\<not> no_route G i 0"
  shows "\<exists>pre post g. node_gold G i = Inr (PyFloat g) \<and>
           baseline_admissible_path sp G = Inr (pre @ [(i, PyFloat 0), (i, PyFloat g)] @ post)"
proof -
  from r obtain p0 p1 where p0: "sp G 0 i = Some p0" and p1: "sp G i 0 = Some p1"
    using contract_None_iff [OF c] by (metis option.exhaust)
  have "nat i \<in> set [1..<number_of_nodes G]" using i by auto
  then have "int (nat i) \<in> int ` set [1..<number_of_nodes G]" by (rule imageI)
  then have "int (nat i) \<in> set (node_range G)" by (simp only: node_range_def set_map)
  then have mem: "i \<in> set (node_range G)" using i by simp
  obtain q where q: "node_gold G i = Inr q"
    using node_gold_converts [OF c gc mem] p0 p1 by auto
  then obtain g where g: "q = PyFloat g"
    by (auto simp: node_gold_def split: if_splits sum.splits)
  have "0 \<noteq> i" using i by simp
  then obtain t where t: "transit p0 = t @ [(i, PyFloat 0)]"
    using transit_ends [OF contract_route [OF c p0]] by blast
  have rt: "round_trip sp G i = t @ [(i, PyFloat 0), (i, PyFloat g)] @ transit p1"
    using p0 p1 t q g by (simp add: round_trip_def)
  obtain xs ys where split: "node_range G = xs @ i # ys" using mem by (meson split_list)
  have "baseline_admissible_path sp G =
          Inr (((0, PyFloat 0) # concat (map (round_trip sp G) xs) @ t)
                 @ [(i, PyFloat 0), (i, PyFloat g)]
                 @ (transit p1 @ concat (map (round_trip sp G) ys) @ [(0, PyFloat 0)]))"
    by (simp add: baseline_eq [OF c gc] split rt)
  then show ?thesis using q g by blast
qed

text \<open>
  The baseline path ends with two waypoints at the origin, so the checker accepts it only
  in a graph with an edge from the origin to itself.
\<close>

lemma baseline_never_valid:
  assumes c: "sp_contract sp G" and loop: "\<not> has_edge G 0 0"
    and b: "baseline_admissible_path sp G = Inr out"
  shows "\<not> is_valid G out"
proof
  assume v: "is_valid G out"
  define body where "body = (0, PyFloat 0) # concat (map (round_trip sp G) (node_range G))"
  have ne: "body \<noteq> []" by (simp add: body_def)
  have out: "out = body @ [(0, PyFloat 0)]"
    using baseline_Inr [OF b] by (simp add: body_def)
  have "\<forall>i\<in>set (node_range G). i \<noteq> 0" by (auto simp: node_range_def)
  then have l: "fst (last body) = 0" unfolding body_def by (rule round_trips_end [OF c])
  define k where "k = length body - 1"
  have k: "Suc k = length body" unfolding k_def using ne by simp
  have "out ! k = last body"
    unfolding out k_def by (rule nth_append_last [OF ne])
  moreover have "out ! Suc k = (0, PyFloat 0)"
    unfolding out k by (simp only: nth_append_length)
  moreover have "Suc k < length out" unfolding out using k by simp
  ultimately have "has_edge G 0 0"
    using is_valid_edge [OF v, of k] l by simp
  with loop show False by simp
qed

section \<open>The loop of the assembler\<close>

lemma close_path_nonempty: "path \<noteq> [] \<Longrightarrow> close_path path \<noteq> []"
  by (simp add: close_path_def)

lemma close_path_last: "py_eq (last (close_path path)) (0, PyInt 0)"
  by (simp add: close_path_def py_eq_def)

lemma close_path_closed: "py_eq (last path) (0, PyInt 0) \<Longrightarrow> close_path path = path"
  by (simp add: close_path_def)

lemma close_path_open:
  "\<not> py_eq (last path) (0, PyInt 0) \<Longrightarrow> close_path path = path @ [(0, PyInt 0)]"
  by (simp add: close_path_def py_eq_def)

lemma py_eq_zero_iff: "py_eq w (0, PyInt 0) \<longleftrightarrow> w = (0, PyInt 0) \<or> w = (0, PyFloat 0)"
proof (cases w)
  case (Pair n q)
  then show ?thesis by (cases q) (auto simp: py_eq_def)
qed

lemma assembled_explicit:
  "assembled sp G trips =
     (if last (concat (segments sp G trips)) = (0, PyInt 0) \<or>
         last (concat (segments sp G trips)) = (0, PyFloat 0)
      then concat (segments sp G trips)
      else concat (segments sp G trips) @ [(0, PyInt 0)])"
  using close_path_closed close_path_open py_eq_zero_iff by (auto simp: assembled_def)

lemma path_total_close_path: "path_total (close_path path) = path_total path"
  by (simp add: close_path_def path_total_def)

lemma run_loop_eq:
  "\<forall>t\<in>set ts. \<exists>s. expand_path sp G (stops t) (pickups t) = Inr s \<Longrightarrow>
   run_loop sp G ts path =
     (if \<exists>t\<in>set ts. expand_path sp G (stops t) (pickups t) = Inr []
      then baseline_admissible_path sp G
      else run_finish sp G (path @ concat (segments sp G ts)))"
proof (induction ts arbitrary: path)
  case Nil
  show ?case by (simp add: segments_def)
next
  case (Cons t ts)
  from Cons.prems obtain s where s: "expand_path sp G (stops t) (pickups t) = Inr s" by auto
  have rest: "\<forall>t\<in>set ts. \<exists>s. expand_path sp G (stops t) (pickups t) = Inr s"
    using Cons.prems by simp
  show ?case
  proof (cases "s = []")
    case True
    then show ?thesis using s by simp
  next
    case False
    then show ?thesis using s Cons.IH [OF rest, of "path @ s"] by (simp add: segments_def)
  qed
qed

lemma segments_nonempty:
  assumes "trips \<noteq> []"
    and "\<forall>t\<in>set trips. \<exists>s. expand_path sp G (stops t) (pickups t) = Inr s \<and> s \<noteq> []"
  shows "concat (segments sp G trips) \<noteq> []"
proof -
  obtain t ts where t: "trips = t # ts" using assms(1) by (cases trips) auto
  with assms(2) obtain s where "expand_path sp G (stops t) (pickups t) = Inr s" "s \<noteq> []"
    by auto
  then show ?thesis using t by (simp add: segments_def)
qed

lemma run_eq:
  assumes ok: "\<forall>t\<in>set trips. \<exists>s. expand_path sp G (stops t) (pickups t) = Inr s"
  shows "run sp G trips =
           (if trips = [] \<or> (\<exists>t\<in>set trips. expand_path sp G (stops t) (pickups t) = Inr []) \<or>
               \<not> is_valid G (assembled sp G trips)
            then baseline_admissible_path sp G
            else Inr (assembled sp G trips))"
proof (cases "trips = [] \<or> (\<exists>t\<in>set trips. expand_path sp G (stops t) (pickups t) = Inr [])")
  case True
  then show ?thesis using run_loop_eq [OF ok, of "[]"] by (auto simp: run_def)
next
  case False
  then have "\<forall>t\<in>set trips. \<exists>s. expand_path sp G (stops t) (pickups t) = Inr s \<and> s \<noteq> []"
    using ok by metis
  with False have ne: "concat (segments sp G trips) \<noteq> []"
    by (intro segments_nonempty) auto
  have "run sp G trips = run_finish sp G (concat (segments sp G trips))"
    using False run_loop_eq [OF ok, of "[]"] by (simp add: run_def)
  then have "run sp G trips =
               (if \<not> is_valid G (assembled sp G trips) then baseline_admissible_path sp G
                else Inr (assembled sp G trips))"
    by (simp only: run_finish_def assembled_def if_not_P [OF ne])
  then show ?thesis using False by auto
qed

lemma parallel_no_error:
  assumes "sp_contract sp G" "\<forall>t\<in>set trips. length (pickups t) = length (stops t)"
  shows "\<forall>t\<in>set trips. \<exists>s. expand_path sp G (stops t) (pickups t) = Inr s"
  using assms expand_path_no_error by simp

lemma path_total_segments:
  assumes c: "sp_contract sp G"
    and ok: "\<forall>t\<in>set trips. length (pickups t) = length (stops t) \<and> distinct_adj (stops t) \<and>
               expand_path sp G (stops t) (pickups t) \<noteq> Inr []"
  shows "path_total (concat (segments sp G trips)) = trips_total trips"
proof -
  have "(case expand_path sp G (stops t) (pickups t) of Inl e \<Rightarrow> [] | Inr s \<Rightarrow> s) \<noteq> [] \<and>
        path_total (case expand_path sp G (stops t) (pickups t) of Inl e \<Rightarrow> [] | Inr s \<Rightarrow> s)
          = sum_list (map qval (pickups t))" if t: "t \<in> set trips" for t
  proof -
    have len: "length (pickups t) = length (stops t)" and d: "distinct_adj (stops t)"
      and ne: "expand_path sp G (stops t) (pickups t) \<noteq> Inr []"
      using ok t by auto
    obtain s where s: "expand_path sp G (stops t) (pickups t) = Inr s"
      using expand_path_no_error [OF c, of "stops t" "pickups t"] len by auto
    with ne have "s \<noteq> []" by auto
    then show ?thesis using expand_path_sum [OF c len d s] s by simp
  qed
  then have "map path_total (segments sp G trips) = map (\<lambda>t. sum_list (map qval (pickups t))) trips"
    unfolding segments_def by simp
  then show ?thesis by (simp only: path_total_concat trips_total_def)
qed

section \<open>The concrete graphs\<close>

lemmas eval_defs =
  sp_line_def sp_chain_def sp_gap_def sp_origin_def sp_huge_def sp_table_def
  G_line_def G_chain_def G_gap_def G_origin_def G_huge_def py_float_int_def
  expand_path_def emit_tail_def transit_def node_gold_def node_range_def number_of_nodes_def
  baseline_admissible_path_def close_path_def py_eq_def
  is_valid_def has_edge_def path_total_def trips_total_def segments_def assembled_def
  upt_rec nth_Cons'

lemma sp_line_contract: "sp_contract sp_line G_line"
  unfolding sp_contract_def
proof (intro allI)
  fix a b :: node
  have out3: "\<not> has_edge G_line 3 v" "\<not> has_edge G_line v 3" for v
    by (auto simp: has_edge_def G_line_def)
  have isolated: "no_route G_line a b" if "a \<noteq> b" "a = 3 \<or> b = 3"
    using that route_first_edge [of G_line a b] route_last_edge [of G_line a b] out3
    by (auto simp: no_route_def)
  consider (outside) "a \<notin> {0, 1, 2, 3} \<or> b \<notin> {0, 1, 2, 3}"
    | (iso) "a \<in> {0, 1, 2, 3}" "b \<in> {0, 1, 2, 3}" "a \<noteq> b" "a = 3 \<or> b = 3"
    | (tab) "(a, b) \<in> {(0, 0), (1, 1), (2, 2), (3, 3), (0, 1), (1, 0), (1, 2), (2, 1), (0, 2), (2, 0)}"
    by auto
  then show "case sp_line G_line a b of None \<Rightarrow> no_route G_line a b | Some p \<Rightarrow> is_route G_line a b p"
  proof cases
    case outside
    then have "sp_line G_line a b = None" by (auto simp: sp_line_def sp_table_def)
    moreover have "no_route G_line a b" using outside by (auto simp: no_route_def G_line_def)
    ultimately show ?thesis by simp
  next
    case iso
    then have "sp_line G_line a b = None" by (auto simp: sp_line_def sp_table_def)
    moreover have "no_route G_line a b" using iso isolated by simp
    ultimately show ?thesis by simp
  next
    case tab
    then show ?thesis
      by (auto simp: sp_line_def sp_table_def is_route_def has_edge_def G_line_def)
  qed
qed

lemma sp_chain_contract: "sp_contract sp_chain G_chain"
  unfolding sp_contract_def
proof (intro allI)
  fix a b :: node
  consider (outside) "a \<notin> {0, 1, 2} \<or> b \<notin> {0, 1, 2}"
    | (tab) "(a, b) \<in> {(0, 0), (1, 1), (2, 2), (0, 1), (1, 0), (1, 2), (2, 1), (0, 2), (2, 0)}"
    by auto
  then show "case sp_chain G_chain a b of None \<Rightarrow> no_route G_chain a b
             | Some p \<Rightarrow> is_route G_chain a b p"
  proof cases
    case outside
    then have "sp_chain G_chain a b = None" by (auto simp: sp_chain_def sp_table_def)
    moreover have "no_route G_chain a b" using outside by (auto simp: no_route_def G_chain_def)
    ultimately show ?thesis by simp
  next
    case tab
    then show ?thesis
      by (auto simp: sp_chain_def sp_table_def is_route_def has_edge_def G_chain_def)
  qed
qed

lemma sp_gap_contract: "sp_contract sp_gap G_gap"
  unfolding sp_contract_def
proof (intro allI)
  fix a b :: node
  consider (outside) "a \<notin> {0, 5} \<or> b \<notin> {0, 5}"
    | (tab) "(a, b) \<in> {(0, 0), (5, 5), (0, 5), (5, 0)}"
    by auto
  then show "case sp_gap G_gap a b of None \<Rightarrow> no_route G_gap a b | Some p \<Rightarrow> is_route G_gap a b p"
  proof cases
    case outside
    then have "sp_gap G_gap a b = None" by (auto simp: sp_gap_def sp_table_def)
    moreover have "no_route G_gap a b" using outside by (auto simp: no_route_def G_gap_def)
    ultimately show ?thesis by simp
  next
    case tab
    then show ?thesis
      by (auto simp: sp_gap_def sp_table_def is_route_def has_edge_def G_gap_def)
  qed
qed

lemma no_route_line: "no_route G_line a b \<longleftrightarrow> sp_line G_line a b = None"
  using contract_None_iff [OF sp_line_contract] by simp

lemma sp_huge_contract: "sp_contract sp_huge G_huge"
  unfolding sp_contract_def
proof (intro allI)
  fix a b :: node
  consider (outside) "a \<notin> {0, 1} \<or> b \<notin> {0, 1}"
    | (tab) "(a, b) \<in> {(0, 0), (1, 1), (0, 1), (1, 0)}"
    by auto
  then show "case sp_huge G_huge a b of None \<Rightarrow> no_route G_huge a b
             | Some p \<Rightarrow> is_route G_huge a b p"
  proof cases
    case outside
    then have "sp_huge G_huge a b = None" by (auto simp: sp_huge_def sp_table_def)
    moreover have "no_route G_huge a b" using outside by (auto simp: no_route_def G_huge_def)
    ultimately show ?thesis by simp
  next
    case tab
    then show ?thesis
      by (auto simp: sp_huge_def sp_table_def is_route_def has_edge_def G_huge_def)
  qed
qed

lemma baseline_huge: "baseline_admissible_path sp_huge G_huge = Inl OverflowError"
  by (simp add: eval_defs)

lemma gold_converts_line: "gold_converts G_line"
  unfolding gold_converts_def
proof (intro ballI impI)
  fix i
  have "py_float (case gold G_line i of None \<Rightarrow> PyInt 0 | Some g \<Rightarrow> g) =
          Inr (if i = 1 then 5 else if i = 2 then 15 / 2 else 0)"
    by (simp add: G_line_def py_float_int_def)
  then show "\<exists>r. py_float (case gold G_line i of None \<Rightarrow> PyInt 0 | Some g \<Rightarrow> g) = Inr r"
    by blast
qed

section \<open>The properties\<close>

text \<open>
  C1. That \<^verbatim>\<open>run\<close> always returns a path the checker accepts fails on the code in the
  fallback branch. With no trips \<^verbatim>\<open>run\<close> returns the baseline path unchecked; that path
  holds a node twice in a row (node 1, node 2 and the origin on the graph 0 -- 1 -- 2; the
  origin on the graph with the single node 0), and the checker rejects it, since no node has an
  edge to itself.
\<close>

theorem run_not_admissible:
  "run sp_chain G_chain [] =
     Inr [(0, PyFloat 0), (1, PyFloat 0), (1, PyFloat 5), (0, PyFloat 0),
          (1, PyFloat 0), (2, PyFloat 0), (2, PyFloat (15 / 2)), (1, PyFloat 0), (0, PyFloat 0),
          (0, PyFloat 0)] \<and>
   is_valid G_chain
       [(0, PyFloat 0), (1, PyFloat 0), (1, PyFloat 5), (0, PyFloat 0),
          (1, PyFloat 0), (2, PyFloat 0), (2, PyFloat (15 / 2)), (1, PyFloat 0), (0, PyFloat 0),
          (0, PyFloat 0)] = False \<and>
   run sp_origin G_origin [] = Inr [(0, PyFloat 0), (0, PyFloat 0)] \<and>
   is_valid G_origin [(0, PyFloat 0), (0, PyFloat 0)] = False"
  by (simp add: run_def eval_defs)

text \<open>
  C2. The placement rule fails on the code where a stop is repeated. On the graph
  0 -- 1 -- 2, for the stops 0, 1, 1, 0 with the pickups 0, 2, 3, 0, the library returns
  the one-node route from 1 to 1, the inner loop emits nothing for it, and the pickup 3 of
  the third stop is in no waypoint of the result.
\<close>

theorem expand_path_drops_pickup:
  "expand_path sp_chain G_chain [0, 1, 1, 0] [PyInt 0, PyInt 2, PyInt 3, PyInt 0] =
     Inr [(0, PyInt 0), (1, PyInt 2), (0, PyInt 0)]"
  by (simp add: eval_defs)

text \<open>
  C3, as stated, fails: on the graph 0 -- 1 -- 2 the single trip with the stops 2, 0 and
  the pickups 3, 0 expands to a non-empty segment, but node 2 is neither the origin nor a
  neighbour of it, the checker rejects the assembled path, and \<^verbatim>\<open>run\<close> returns the
  baseline path, whose quantities sum to 12.5 and not to 3.
\<close>

theorem run_conserves_quantity_counterexample:
  "sp_contract sp_chain G_chain \<and>
   expand_path sp_chain G_chain [2, 0] [PyInt 3, PyInt 0] =
     Inr [(2, PyInt 3), (1, PyFloat 0), (0, PyInt 0)] \<and>
   run sp_chain G_chain [\<lparr>stops = [2, 0], pickups = [PyInt 3, PyInt 0]\<rparr>] =
     Inr [(0, PyFloat 0), (1, PyFloat 0), (1, PyFloat 5), (0, PyFloat 0),
          (1, PyFloat 0), (2, PyFloat 0), (2, PyFloat (15 / 2)), (1, PyFloat 0), (0, PyFloat 0),
          (0, PyFloat 0)] \<and>
   path_total [(0, PyFloat 0), (1, PyFloat 0), (1, PyFloat 5), (0, PyFloat 0),
          (1, PyFloat 0), (2, PyFloat 0), (2, PyFloat (15 / 2)), (1, PyFloat 0), (0, PyFloat 0),
          (0, PyFloat 0)] = 25 / 2 \<and>
   trips_total [\<lparr>stops = [2, 0], pickups = [PyInt 3, PyInt 0]\<rparr>] = 3"
  using sp_chain_contract by (simp add: run_def run_finish_def eval_defs)

text \<open>
  C3, amended. When the planner returns at least one trip, every trip has as many pickups
  as stops and no two consecutive stops equal, every trip expands to a non-empty segment
  and the checker accepts the assembled path, then \<^verbatim>\<open>run\<close> returns the assembled path
  and the sum of its quantities is the sum of the pickups of all stops of all trips.
\<close>

theorem run_conserves_quantity:
  assumes c: "sp_contract sp G" and ne: "trips \<noteq> []"
    and ok: "\<forall>t\<in>set trips. length (pickups t) = length (stops t) \<and> distinct_adj (stops t) \<and>
               expand_path sp G (stops t) (pickups t) \<noteq> Inr []"
    and v: "is_valid G (assembled sp G trips)"
  shows "run sp G trips = Inr (assembled sp G trips) \<and>
         path_total (assembled sp G trips) = trips_total trips"
proof
  have par: "\<forall>t\<in>set trips. length (pickups t) = length (stops t)" using ok by blast
  have no: "\<not> (trips = [] \<or> (\<exists>t\<in>set trips. expand_path sp G (stops t) (pickups t) = Inr []) \<or>
               \<not> is_valid G (assembled sp G trips))"
    using ne ok v by blast
  show "run sp G trips = Inr (assembled sp G trips)"
    by (simp only: run_eq [OF parallel_no_error [OF c par]] if_not_P [OF no])
  show "path_total (assembled sp G trips) = trips_total trips"
    unfolding assembled_def path_total_close_path by (rule path_total_segments [OF c ok])
qed

text \<open>
  One trip from the origin to node 2 and back on the line graph.
\<close>

theorem run_conserves_quantity_witness:
  "run sp_line G_line
     [\<lparr>stops = [0, 2, 0], pickups = [PyInt 0, PyFloat (15 / 2), PyInt 0]\<rparr>] =
     Inr [(0, PyInt 0), (1, PyFloat 0), (2, PyFloat (15 / 2)), (1, PyFloat 0), (0, PyInt 0)] \<and>
   path_total [(0, PyInt 0), (1, PyFloat 0), (2, PyFloat (15 / 2)), (1, PyFloat 0), (0, PyInt 0)] =
     trips_total [\<lparr>stops = [0, 2, 0], pickups = [PyInt 0, PyFloat (15 / 2), PyInt 0]\<rparr>]"
proof -
  let ?trips = "[\<lparr>stops = [0, 2, 0], pickups = [PyInt 0, PyFloat (15 / 2), PyInt 0]\<rparr>]"
  have a: "assembled sp_line G_line ?trips =
             [(0, PyInt 0), (1, PyFloat 0), (2, PyFloat (15 / 2)), (1, PyFloat 0), (0, PyInt 0)]"
    by (simp add: eval_defs)
  have ne: "?trips \<noteq> []" by simp
  have ok: "\<forall>t\<in>set ?trips. length (pickups t) = length (stops t) \<and> distinct_adj (stops t) \<and>
              expand_path sp_line G_line (stops t) (pickups t) \<noteq> Inr []"
    by (simp add: eval_defs)
  have v: "is_valid G_line (assembled sp_line G_line ?trips)"
    unfolding a by (simp add: eval_defs)
  show ?thesis
    using run_conserves_quantity [OF sp_line_contract ne ok v] by (simp only: a)
qed

text \<open>
  C4. That the baseline path visits every non-origin node with a route from the origin and
  back fails on the code for node labels that are not \<open>0, \<dots>, n - 1\<close>. In the graph with the
  nodes 0 and 5 and the edge 0 -- 5 node 5 has the routes \<open>[0, 5]\<close> and \<open>[5, 0]\<close>, but the
  loop runs over \<^verbatim>\<open>range(1, 2)\<close>, asks the library for node 1, which is not in the graph,
  and never reaches 5: the baseline path is the two waypoints at the origin.
\<close>

theorem baseline_skips_reachable_node:
  "is_route G_gap 0 5 [0, 5] \<and> is_route G_gap 5 0 [5, 0] \<and>
   sp_gap G_gap 0 5 = Some [0, 5] \<and> sp_gap G_gap 5 0 = Some [5, 0] \<and>
   baseline_admissible_path sp_gap G_gap = Inr [(0, PyFloat 0), (0, PyFloat 0)]"
  by (simp add: is_route_def eval_defs)

text \<open>
  C5, as stated, fails: in the graph 0 -- 1 whose node 1 carries the integer \<open>2^1024\<close> as
  gold, with no trips, \<^verbatim>\<open>run\<close> returns no path: \<^verbatim>\<open>float\<close> of line 69 raises
  \<^verbatim>\<open>OverflowError\<close> in the fallback.
\<close>

theorem run_ends_at_origin_counterexample:
  "sp_contract sp_huge G_huge \<and> run sp_huge G_huge [] = Inl OverflowError"
  using sp_huge_contract baseline_huge by (simp add: run_def)

text \<open>
  C5, amended. For every planner result whose trips have as many pickups as stops:
  \<^verbatim>\<open>run\<close> returns a path whenever \<^verbatim>\<open>float\<close> converts the gold of every node the baseline
  visits; every path \<^verbatim>\<open>run\<close> returns is not empty and ends with the origin and the
  quantity \<^verbatim>\<open>0\<close> or \<^verbatim>\<open>0.0\<close>; and when every trip expands and the concatenated segments
  do not end so, \<^verbatim>\<open>(0, 0)\<close> is appended before the check: \<^verbatim>\<open>run\<close> returns the extended
  path when the checker accepts the extended path, and the baseline path otherwise.
\<close>

theorem run_ends_at_origin:
  assumes c: "sp_contract sp G"
    and par: "\<forall>t\<in>set trips. length (pickups t) = length (stops t)"
  shows "(gold_converts G \<longrightarrow> (\<exists>p. run sp G trips = Inr p)) \<and>
         (\<forall>p. run sp G trips = Inr p \<longrightarrow>
              p \<noteq> [] \<and> (last p = (0, PyInt 0) \<or> last p = (0, PyFloat 0))) \<and>
         (trips \<noteq> [] \<and>
          (\<forall>t\<in>set trips. expand_path sp G (stops t) (pickups t) \<noteq> Inr []) \<and>
          last (concat (segments sp G trips)) \<noteq> (0, PyInt 0) \<and>
          last (concat (segments sp G trips)) \<noteq> (0, PyFloat 0) \<longrightarrow>
          run sp G trips =
            (if is_valid G (concat (segments sp G trips) @ [(0, PyInt 0)])
             then Inr (concat (segments sp G trips) @ [(0, PyInt 0)])
             else baseline_admissible_path sp G))"
proof (intro conjI allI impI)
  have ok: "\<forall>t\<in>set trips. \<exists>s. expand_path sp G (stops t) (pickups t) = Inr s"
    by (rule parallel_no_error [OF c par])
  let ?fallback = "trips = [] \<or> (\<exists>t\<in>set trips. expand_path sp G (stops t) (pickups t) = Inr []) \<or>
               \<not> is_valid G (assembled sp G trips)"
  have r1: "run sp G trips = baseline_admissible_path sp G" if "?fallback"
    by (simp only: run_eq [OF ok] if_P [OF that])
  have r2: "run sp G trips = Inr (assembled sp G trips)" if "\<not> ?fallback"
    by (simp only: run_eq [OF ok] if_not_P [OF that])
  have asm: "assembled sp G trips \<noteq> [] \<and> py_eq (last (assembled sp G trips)) (0, PyInt 0)"
    if nf: "\<not> ?fallback"
  proof -
    have "\<forall>t\<in>set trips. \<exists>s. expand_path sp G (stops t) (pickups t) = Inr s \<and> s \<noteq> []"
      using nf ok by metis
    with nf have "concat (segments sp G trips) \<noteq> []"
      by (intro segments_nonempty) auto
    then have "assembled sp G trips \<noteq> []"
      unfolding assembled_def by (rule close_path_nonempty)
    moreover have "py_eq (last (assembled sp G trips)) (0, PyInt 0)"
      unfolding assembled_def by (rule close_path_last)
    ultimately show ?thesis by simp
  qed
  {
    assume gc: "gold_converts G"
    show "\<exists>p. run sp G trips = Inr p"
    proof (cases "?fallback")
      case True
      then show ?thesis using r1 baseline_total [OF c gc] by auto
    next
      case False
      then show ?thesis using r2 by auto
    qed
  }
  {
    fix p assume p: "run sp G trips = Inr p"
    have "p \<noteq> [] \<and> (last p = (0, PyInt 0) \<or> last p = (0, PyFloat 0))"
    proof (cases "?fallback")
      case True
      then have "baseline_admissible_path sp G = Inr p" using r1 p by simp
      then show ?thesis using baseline_Inr_last by blast
    next
      case False
      then have "p = assembled sp G trips" using r2 p by simp
      then show ?thesis using asm [OF False] by (simp add: py_eq_zero_iff)
    qed
    then show "p \<noteq> []" and "last p = (0, PyInt 0) \<or> last p = (0, PyFloat 0)" by simp_all
  }
  {
    assume h: "trips \<noteq> [] \<and>
          (\<forall>t\<in>set trips. expand_path sp G (stops t) (pickups t) \<noteq> Inr []) \<and>
          last (concat (segments sp G trips)) \<noteq> (0, PyInt 0) \<and>
          last (concat (segments sp G trips)) \<noteq> (0, PyFloat 0)"
    then have a: "assembled sp G trips = concat (segments sp G trips) @ [(0, PyInt 0)]"
      by (simp add: assembled_explicit)
    have "run sp G trips =
            (if \<not> is_valid G (assembled sp G trips) then baseline_admissible_path sp G
             else Inr (assembled sp G trips))"
      using h run_eq [OF ok] by simp
    then show "run sp G trips =
            (if is_valid G (concat (segments sp G trips) @ [(0, PyInt 0)])
             then Inr (concat (segments sp G trips) @ [(0, PyInt 0)])
             else baseline_admissible_path sp G)"
      unfolding a by simp
  }
qed

text \<open>
  On the line graph: the trip 0, 1 is returned with \<^verbatim>\<open>(0, 0)\<close> appended; the trip 0, 2
  is accepted by the checker as it is, but not with \<^verbatim>\<open>(0, 0)\<close> appended (no edge 2 -- 0),
  and \<^verbatim>\<open>run\<close> returns the baseline path.
\<close>

theorem run_ends_at_origin_witness:
  "(\<exists>p. run sp_line G_line [\<lparr>stops = [0, 1], pickups = [PyInt 0, PyInt 5]\<rparr>] = Inr p) \<and>
   run sp_line G_line [\<lparr>stops = [0, 1], pickups = [PyInt 0, PyInt 5]\<rparr>] =
     Inr [(0, PyInt 0), (1, PyInt 5), (0, PyInt 0)] \<and>
   run sp_line G_line [\<lparr>stops = [0, 2], pickups = [PyInt 0, PyInt 5]\<rparr>] =
     baseline_admissible_path sp_line G_line"
proof -
  let ?t1 = "[\<lparr>stops = [0, 1], pickups = [PyInt 0, PyInt 5]\<rparr>]"
  let ?t2 = "[\<lparr>stops = [0, 2], pickups = [PyInt 0, PyInt 5]\<rparr>]"
  have par1: "\<forall>t\<in>set ?t1. length (pickups t) = length (stops t)" by simp
  have par2: "\<forall>t\<in>set ?t2. length (pickups t) = length (stops t)" by simp
  have s1: "concat (segments sp_line G_line ?t1) = [(0, PyInt 0), (1, PyInt 5)]"
    by (simp add: eval_defs)
  have s2: "concat (segments sp_line G_line ?t2) = [(0, PyInt 0), (1, PyFloat 0), (2, PyInt 5)]"
    by (simp add: eval_defs)
  have e1: "\<forall>t\<in>set ?t1. expand_path sp_line G_line (stops t) (pickups t) \<noteq> Inr []"
    by (simp add: eval_defs)
  have e2: "\<forall>t\<in>set ?t2. expand_path sp_line G_line (stops t) (pickups t) \<noteq> Inr []"
    by (simp add: eval_defs)
  have v1: "is_valid G_line ([(0, PyInt 0), (1, PyInt 5)] @ [(0, PyInt 0)])"
    by (simp add: eval_defs)
  have v2: "\<not> is_valid G_line ([(0, PyInt 0), (1, PyFloat 0), (2, PyInt 5)] @ [(0, PyInt 0)])"
    by (simp add: eval_defs)
  note w1 = run_ends_at_origin [OF sp_line_contract par1]
  note w2 = run_ends_at_origin [OF sp_line_contract par2]
  have "\<exists>p. run sp_line G_line ?t1 = Inr p"
    using w1 gold_converts_line by blast
  moreover have "run sp_line G_line ?t1 = Inr [(0, PyInt 0), (1, PyInt 5), (0, PyInt 0)]"
    using w1 e1 v1 unfolding s1 by simp
  moreover have "run sp_line G_line ?t2 = baseline_admissible_path sp_line G_line"
    using w2 e2 v2 unfolding s2 by simp
  ultimately show ?thesis by blast
qed

text \<open>
  C6. \<^verbatim>\<open>run\<close> returns the baseline builder's result when the planner returns no trip,
  when the expander returns the empty list for some trip, or when the checker rejects the
  closed path; in every other case it returns the closed path. The closed path is the
  concatenation of the segments in the planner's order, with \<^verbatim>\<open>(0, 0)\<close> appended unless it
  already ends with the origin and the quantity \<^verbatim>\<open>0\<close> or \<^verbatim>\<open>0.0\<close>.
\<close>

theorem run_fallback_cases:
  assumes c: "sp_contract sp G"
    and par: "\<forall>t\<in>set trips. length (pickups t) = length (stops t)"
  shows "let joined = concat (segments sp G trips);
             closed = (if last joined = (0, PyInt 0) \<or> last joined = (0, PyFloat 0)
                       then joined else joined @ [(0, PyInt 0)])
         in run sp G trips =
              (if trips = [] \<or>
                  (\<exists>t\<in>set trips. expand_path sp G (stops t) (pickups t) = Inr []) \<or>
                  \<not> is_valid G closed
               then baseline_admissible_path sp G
               else Inr closed)"
  unfolding Let_def assembled_explicit [symmetric]
  by (rule run_eq [OF parallel_no_error [OF c par]])

text \<open>
  On the line graph: a trip returned with \<^verbatim>\<open>(0, 0)\<close> appended; a trip returned as it
  is; a second trip to the isolated node 3, which makes \<^verbatim>\<open>run\<close> return the baseline
  path with nothing of the first trip in it; and no trips.
\<close>

theorem run_fallback_cases_witness:
  "run sp_line G_line [\<lparr>stops = [0, 1], pickups = [PyInt 0, PyInt 5]\<rparr>] =
     Inr [(0, PyInt 0), (1, PyInt 5), (0, PyInt 0)] \<and>
   run sp_line G_line
     [\<lparr>stops = [0, 2, 0], pickups = [PyInt 0, PyFloat (15 / 2), PyInt 0]\<rparr>] =
     Inr [(0, PyInt 0), (1, PyFloat 0), (2, PyFloat (15 / 2)), (1, PyFloat 0), (0, PyInt 0)] \<and>
   run sp_line G_line
     [\<lparr>stops = [0, 1], pickups = [PyInt 0, PyInt 5]\<rparr>, \<lparr>stops = [0, 3], pickups = [PyInt 0, PyInt 1]\<rparr>] =
     baseline_admissible_path sp_line G_line \<and>
   run sp_line G_line [] = baseline_admissible_path sp_line G_line"
proof -
  let ?t1 = "[\<lparr>stops = [0, 1], pickups = [PyInt 0, PyInt 5]\<rparr>]"
  let ?t2 = "[\<lparr>stops = [0, 2, 0], pickups = [PyInt 0, PyFloat (15 / 2), PyInt 0]\<rparr>]"
  let ?t3 = "[\<lparr>stops = [0, 1], pickups = [PyInt 0, PyInt 5]\<rparr>,
              \<lparr>stops = [0, 3], pickups = [PyInt 0, PyInt 1]\<rparr>]"
  have s1: "concat (segments sp_line G_line ?t1) = [(0, PyInt 0), (1, PyInt 5)]"
    by (simp add: eval_defs)
  have s2: "concat (segments sp_line G_line ?t2) =
              [(0, PyInt 0), (1, PyFloat 0), (2, PyFloat (15 / 2)), (1, PyFloat 0), (0, PyInt 0)]"
    by (simp add: eval_defs)
  have e1: "\<not> (\<exists>t\<in>set ?t1. expand_path sp_line G_line (stops t) (pickups t) = Inr [])"
    by (simp add: eval_defs)
  have e2: "\<not> (\<exists>t\<in>set ?t2. expand_path sp_line G_line (stops t) (pickups t) = Inr [])"
    by (simp add: eval_defs)
  have e3: "\<exists>t\<in>set ?t3. expand_path sp_line G_line (stops t) (pickups t) = Inr []"
    by (simp add: eval_defs)
  have p3: "\<forall>t\<in>set ?t3. length (pickups t) = length (stops t)" by simp
  have v1: "is_valid G_line [(0, PyInt 0), (1, PyInt 5), (0, PyInt 0)]"
    by (simp add: eval_defs)
  have v2: "is_valid G_line
              [(0, PyInt 0), (1, PyFloat 0), (2, PyFloat (15 / 2)), (1, PyFloat 0), (0, PyInt 0)]"
    by (simp add: eval_defs)
  have "run sp_line G_line ?t1 = Inr [(0, PyInt 0), (1, PyInt 5), (0, PyInt 0)]"
    using run_fallback_cases [OF sp_line_contract, of ?t1] e1 v1
    unfolding Let_def s1 by simp
  moreover have "run sp_line G_line ?t2 =
      Inr [(0, PyInt 0), (1, PyFloat 0), (2, PyFloat (15 / 2)), (1, PyFloat 0), (0, PyInt 0)]"
    using run_fallback_cases [OF sp_line_contract, of ?t2] e2 v2
    unfolding Let_def s2 by simp
  moreover have "run sp_line G_line ?t3 = baseline_admissible_path sp_line G_line"
    using run_fallback_cases [OF sp_line_contract p3] e3
    unfolding Let_def by (simp only: simp_thms if_True)
  moreover have "run sp_line G_line [] = baseline_admissible_path sp_line G_line"
    using run_fallback_cases [OF sp_line_contract, of "[]"]
    unfolding Let_def by simp
  ultimately show ?thesis by blast
qed

text \<open>
  C7. For stops of length at least 2, \<^verbatim>\<open>_expand_path\<close> returns the empty list (and does not
  raise) exactly when some consecutive pair of stops \<open>(a, b)\<close> that the loop reaches has no
  route (no path from \<open>a\<close> to \<open>b\<close>, or \<open>a\<close> or \<open>b\<close> not a node of the graph) while every
  earlier pair has one. The loop reaches pair \<open>i\<close> when the pickups \<open>i\<close> and \<open>i + 1\<close> exist, which
  parallel pickups always give.
\<close>

theorem expand_path_empty_iff:
  assumes c: "sp_contract sp G" and len: "2 \<le> length sts"
  shows "expand_path sp G sts pks = Inr [] \<longleftrightarrow>
           (\<exists>i. Suc i < length sts \<and> Suc i < length pks \<and>
                no_route G (sts ! i) (sts ! Suc i) \<and>
                (\<forall>j<i. \<not> no_route G (sts ! j) (sts ! Suc j)))"
    (is "?L \<longleftrightarrow> ?R")
proof
  assume R: ?R
  then obtain i where i: "Suc i < length sts" "Suc i < length pks"
      "no_route G (sts ! i) (sts ! Suc i)" "\<forall>j<i. \<not> no_route G (sts ! j) (sts ! Suc j)"
    by blast
  have split: "[0..<length sts - 1] = [0..<i] @ i # [Suc i..<length sts - 1]"
    using i(1) by (intro upt_split) simp
  have ok: "\<forall>j\<in>set [0..<i]. Suc j < length pks \<and> sp G (sts ! j) (sts ! Suc j) \<noteq> None"
    using i(2,4) contract_None_iff [OF c] by auto
  have none: "sp G (sts ! i) (sts ! Suc i) = None"
    using i(3) contract_None_iff [OF c] by simp
  have "expand_loop sp G sts pks ([0..<i] @ i # [Suc i..<length sts - 1]) [] = Inr []"
    by (rule expand_loop_no_route [OF c ok i(2) none])
  then show ?L by (simp only: expand_path_def split)
next
  assume L: ?L
  let ?n = "length sts - 1"
  let ?bad = "\<lambda>i. \<not> (Suc i < length pks \<and> sp G (sts ! i) (sts ! Suc i) \<noteq> None)"
  show ?R
  proof (cases "\<exists>i<?n. ?bad i")
    case False
    then have ok: "\<forall>i\<in>set [0..<?n]. Suc i < length pks \<and> sp G (sts ! i) (sts ! Suc i) \<noteq> None"
      by auto
    have "0 < ?n" using len by simp
    then have up: "[0..<?n] = 0 # [1..<?n]" by (simp add: upt_conv_Cons)
    have "sp G (sts ! 0) (sts ! Suc 0) \<noteq> None" using ok \<open>0 < ?n\<close> by auto
    then have "piece sp G sts pks 0 \<noteq> []" by (rule piece_0_nonempty)
    then have "concat (map (piece sp G sts pks) [0..<?n]) \<noteq> []" unfolding up by simp
    moreover have "expand_path sp G sts pks = Inr ([] @ concat (map (piece sp G sts pks) [0..<?n]))"
      unfolding expand_path_def by (rule expand_loop_all [OF c ok])
    ultimately show ?thesis using L by simp
  next
    case True
    then have ex: "\<exists>i. i < ?n \<and> ?bad i" by blast
    define i where "i = (LEAST i. i < ?n \<and> ?bad i)"
    have bad: "i < ?n \<and> ?bad i" unfolding i_def by (rule LeastI_ex [OF ex])
    have least: "\<not> (j < ?n \<and> ?bad j)" if "j < i" for j
      using that not_less_Least unfolding i_def by blast
    have split: "[0..<?n] = [0..<i] @ i # [Suc i..<?n]"
      using bad by (intro upt_split) simp
    have ok: "\<forall>j\<in>set [0..<i]. Suc j < length pks \<and> sp G (sts ! j) (sts ! Suc j) \<noteq> None"
    proof
      fix j assume "j \<in> set [0..<i]"
      then have "j < i" by simp
      with least [of j] bad show "Suc j < length pks \<and> sp G (sts ! j) (sts ! Suc j) \<noteq> None"
        by auto
    qed
    have inrange: "Suc i < length pks"
    proof (rule ccontr)
      assume "\<not> Suc i < length pks"
      then have "expand_loop sp G sts pks ([0..<i] @ i # [Suc i..<?n]) [] = Inl IndexError"
        by (rule expand_loop_index_error [OF c ok])
      then have "expand_path sp G sts pks = Inl IndexError"
        using split by (simp only: expand_path_def)
      with L show False by simp
    qed
    with bad have none: "sp G (sts ! i) (sts ! Suc i) = None" by simp
    have "Suc i < length sts" using bad by auto
    moreover have "no_route G (sts ! i) (sts ! Suc i)"
      using none contract_None_iff [OF c] by simp
    moreover have "\<forall>j<i. \<not> no_route G (sts ! j) (sts ! Suc j)"
      using ok contract_None_iff [OF c] by auto
    ultimately show ?thesis using inrange by blast
  qed
qed

text \<open>
  The stops 0 and 3 of the line graph: node 3 is isolated.
\<close>

theorem expand_path_empty_iff_witness:
  "sp_contract sp_line G_line \<and> (2::nat) \<le> length [0::int, 3] \<and>
   expand_path sp_line G_line [0, 3] [PyInt 0, PyInt 4] = Inr []"
proof -
  have "sp_line G_line 0 3 = None" by (simp add: sp_line_def sp_table_def)
  then have "no_route G_line 0 3" using contract_None_iff [OF sp_line_contract] by simp
  then have "\<exists>i. Suc i < length [0::int, 3] \<and> Suc i < length [PyInt 0, PyInt 4] \<and>
                no_route G_line ([0, 3] ! i) ([0, 3] ! Suc i) \<and>
                (\<forall>j<i. \<not> no_route G_line ([0, 3] ! j) ([0, 3] ! Suc j))"
    by (intro exI [of _ 0]) simp
  then show ?thesis
    using expand_path_empty_iff [OF sp_line_contract, of "[0, 3]" "[PyInt 0, PyInt 4]"]
      sp_line_contract by simp
qed

text \<open>
  C8. \<^verbatim>\<open>is_valid\<close> returns true exactly when the path is non-empty, its first node is the
  origin 0 or a neighbour of 0, and every two consecutive waypoints are joined by an edge
  of the graph. It is a total function of the graph and the path: the empty path gives
  false, a missing edge (also between nodes the graph does not have) gives false, and
  nothing raises.
\<close>

theorem is_valid_iff:
  "is_valid G path \<longleftrightarrow>
     path \<noteq> [] \<and>
     (fst (hd path) = 0 \<or> has_edge G 0 (fst (hd path))) \<and>
     (\<forall>i. Suc i < length path \<longrightarrow> has_edge G (fst (path ! i)) (fst (path ! Suc i)))"
proof (cases path)
  case Nil
  then show ?thesis by (simp add: is_valid_def)
next
  case (Cons w rest)
  have "is_valid G path \<longleftrightarrow>
          (fst (hd path) = 0 \<or> has_edge G 0 (fst (hd path))) \<and>
          edges_ok G (zip path (drop 1 path))"
    using Cons by (auto simp: is_valid_def)
  then show ?thesis using Cons by (simp only: edges_ok_zip) simp
qed

text \<open>
  Three paths on the line graph: one accepted, one with a missing edge, the empty one.
\<close>

theorem is_valid_iff_witness:
  "is_valid G_line [(0, PyInt 0), (1, PyInt 2), (0, PyInt 0)] \<and>
   \<not> is_valid G_line [(0, PyInt 0), (2, PyInt 1)] \<and>
   \<not> is_valid G_line []"
  unfolding is_valid_iff
  by (auto simp: has_edge_def G_line_def less_Suc_eq nth_Cons')

text \<open>
  C9, as stated, fails: in the graph 0 -- 1 whose node 1 carries the integer \<open>2^1024\<close> as
  gold the baseline builder raises \<^verbatim>\<open>OverflowError\<close> (\<^verbatim>\<open>float\<close> of line 69, outside the
  \<^verbatim>\<open>try\<close>).
\<close>

theorem baseline_cannot_fail_counterexample:
  "sp_contract sp_huge G_huge \<and>
   baseline_admissible_path sp_huge G_huge = Inl OverflowError"
  using sp_huge_contract baseline_huge by simp

text \<open>
  C9, amended. The baseline builder returns a path whenever \<^verbatim>\<open>float\<close> converts the gold
  of every node it visits, and the only exception it can raise is the \<^verbatim>\<open>OverflowError\<close> of
  that conversion; the loop gives the same result as the loop run over only those nodes
  that have a route from the origin and a route back, so every other node is skipped; and
  for a graph whose only node is the origin the result is \<^verbatim>\<open>[(0, 0.0), (0, 0.0)]\<close>.
\<close>

theorem baseline_cannot_fail:
  "(sp_contract sp G \<longrightarrow>
      (gold_converts G \<longrightarrow> (\<exists>out. baseline_admissible_path sp G = Inr out)) \<and>
      (\<forall>e. baseline_admissible_path sp G = Inl e \<longrightarrow> e = OverflowError) \<and>
      baseline_loop sp G (node_range G) [(0, PyFloat 0)] =
        baseline_loop sp G
          (filter (\<lambda>i. \<not> no_route G 0 i \<and> \<not> no_route G i 0) (node_range G)) [(0, PyFloat 0)]) \<and>
   (set (nodes G) = {0} \<longrightarrow>
      baseline_admissible_path sp G = Inr [(0, PyFloat 0), (0, PyFloat 0)])"
proof (intro conjI impI allI)
  assume c: "sp_contract sp G"
  show "\<exists>out. baseline_admissible_path sp G = Inr out" if "gold_converts G"
    by (rule baseline_total [OF c that])
  show "e = OverflowError" if "baseline_admissible_path sp G = Inl e" for e
    by (rule baseline_Inl [OF c that])
  show "baseline_loop sp G (node_range G) [(0, PyFloat 0)] =
        baseline_loop sp G
          (filter (\<lambda>i. \<not> no_route G 0 i \<and> \<not> no_route G i 0) (node_range G)) [(0, PyFloat 0)]"
    by (simp only: baseline_loop_filter [OF c])
next
  assume "set (nodes G) = {0}"
  then show "baseline_admissible_path sp G = Inr [(0, PyFloat 0), (0, PyFloat 0)]"
    by (rule baseline_single)
qed

text \<open>
  The line graph, where node 3 is skipped, and the graph with the single node 0.
\<close>

theorem baseline_cannot_fail_witness:
  "(\<exists>out. baseline_admissible_path sp_line G_line = Inr out) \<and>
   baseline_loop sp_line G_line [1, 2, 3] [(0, PyFloat 0)] =
     baseline_loop sp_line G_line [1, 2] [(0, PyFloat 0)] \<and>
   baseline_admissible_path sp_origin G_origin = Inr [(0, PyFloat 0), (0, PyFloat 0)]"
proof -
  have n: "node_range G_line = [1, 2, 3]" by (simp add: eval_defs)
  have f: "filter (\<lambda>i. \<not> no_route G_line 0 i \<and> \<not> no_route G_line i 0) [1, 2, 3] = [1, 2]"
    by (simp add: no_route_line sp_line_def sp_table_def)
  have o: "set (nodes G_origin) = {0}" by (simp add: G_origin_def)
  show ?thesis
    using baseline_cannot_fail [of sp_line G_line] baseline_cannot_fail [of sp_origin G_origin]
      sp_line_contract gold_converts_line o
    by (simp only: n f)
qed

text \<open>
  C10. When every trip expands to a non-empty segment and the concatenation of the
  segments already ends with the origin and the quantity \<^verbatim>\<open>0\<close> or \<^verbatim>\<open>0.0\<close>, lines 114 to
  116 append nothing: the assembled path is the concatenation itself, and \<^verbatim>\<open>run\<close> returns
  it when the checker accepts it.
\<close>

theorem run_no_duplicate_terminal:
  assumes ne: "trips \<noteq> []"
    and ok: "\<forall>t\<in>set trips. \<exists>s. expand_path sp G (stops t) (pickups t) = Inr s \<and> s \<noteq> []"
    and z: "last (concat (segments sp G trips)) = (0, PyInt 0) \<or>
            last (concat (segments sp G trips)) = (0, PyFloat 0)"
  shows "assembled sp G trips = concat (segments sp G trips) \<and>
         run sp G trips =
           (if is_valid G (concat (segments sp G trips)) then Inr (concat (segments sp G trips))
            else baseline_admissible_path sp G)"
proof -
  have a: "assembled sp G trips = concat (segments sp G trips)"
    unfolding assembled_def using z by (intro close_path_closed) (simp add: py_eq_zero_iff)
  have ok': "\<forall>t\<in>set trips. \<exists>s. expand_path sp G (stops t) (pickups t) = Inr s"
    using ok by blast
  have "\<not> (\<exists>t\<in>set trips. expand_path sp G (stops t) (pickups t) = Inr [])"
    using ok by fastforce
  then have "run sp G trips =
               (if \<not> is_valid G (assembled sp G trips) then baseline_admissible_path sp G
                else Inr (assembled sp G trips))"
    using ne run_eq [OF ok'] by simp
  then show ?thesis using a by simp
qed

text \<open>
  A trip on the line graph whose last pickup is the float \<^verbatim>\<open>0.0\<close>.
\<close>

theorem run_no_duplicate_terminal_witness:
  "run sp_line G_line
     [\<lparr>stops = [0, 2, 0], pickups = [PyInt 0, PyFloat (15 / 2), PyFloat 0]\<rparr>] =
     Inr [(0, PyInt 0), (1, PyFloat 0), (2, PyFloat (15 / 2)), (1, PyFloat 0), (0, PyFloat 0)]"
  using run_no_duplicate_terminal
    [of "[\<lparr>stops = [0, 2, 0], pickups = [PyInt 0, PyFloat (15 / 2), PyFloat 0]\<rparr>]"
        sp_line G_line]
  by (simp add: eval_defs)

end
